theory Spec2Isabelle
  imports Complex_Main "HOL-Library.Log_Nat"
begin

section \<open>JavaScript numbers\<close>

text \<open>
  Both tools compute on JavaScript numbers, that is IEEE 754 binary64 values, and several
  properties of the calculator (an identity that holds "exactly", a round trip "within
  tolerance") are statements about the rounding of those operations. A number is therefore
  modelled as a finite value (a rational, which is a double when \<open>is_double\<close> holds),
  an infinity or NaN, and every arithmetic operation computes the exact rational result and
  rounds it to the nearest double, ties to even, as ECMAScript prescribes.

  The inputs of the tools are doubles (the schema of each numeric parameter is
  \<open>z.number()\<close>); the operations are defined on the infinities and on NaN as well, since
  an overflow produces them and the tools go on computing with them.

  The sign of zero is not modelled: the only operations of the tools that could observe it
  are divisions, and every divisor in the tools is a non-zero constant.
\<close>

datatype number = Fin rat | PosInf | NegInf | NaN

text \<open>\<open>ilog2 x\<close> is the binary exponent of a positive rational: \<open>2 powi ilog2 x \<le> x < 2 powi (ilog2 x + 1)\<close>.\<close>

definition ilog2 :: "rat \<Rightarrow> int" where
  "ilog2 x = (if 1 \<le> x then bitlen \<lfloor>x\<rfloor> - 1 else - bitlen (\<lceil>1 / x\<rceil> - 1))"

definition round_half_even :: "rat \<Rightarrow> int" where
  "round_half_even t =
     (let f = \<lfloor>t\<rfloor>; d = t - of_int f
      in if d < 1 / 2 then f else if 1 / 2 < d then f + 1 else if even f then f else f + 1)"

text \<open>
  Rounding to binary64: 53 significant bits, exponents from \<open>-1022\<close> (below which the
  spacing stays that of the subnormal numbers, \<open>2 powi - 1074\<close>) to \<open>1023\<close>, and overflow
  to an infinity when the rounded magnitude reaches \<open>2 powi 1024\<close>.
\<close>

definition round64 :: "rat \<Rightarrow> number" where
  "round64 x =
     (if x = 0 then Fin 0
      else let a = \<bar>x\<bar>;
               e = max (ilog2 a) (- 1022);
               w = 2 powi (e - 52);
               y = of_int (round_half_even (a / w)) * w
           in if 2 powi 1024 \<le> y then (if 0 < x then PosInf else NegInf)
              else Fin (if 0 < x then y else - y))"

definition is_double :: "rat \<Rightarrow> bool" where
  "is_double r = (round64 r = Fin r)"

text \<open>A numeric literal of the source denotes the double nearest to its decimal value.\<close>

definition lit :: "rat \<Rightarrow> number" where
  "lit r = round64 r"

text \<open>The operators \<open>*\<close>, \<open>/\<close>, \<open>-\<close>, \<open>%\<close> and \<open>>=\<close> on numbers.\<close>

fun fmul :: "number \<Rightarrow> number \<Rightarrow> number" where
  "fmul (Fin a) (Fin b) = round64 (a * b)"
| "fmul (Fin a) PosInf = (if a = 0 then NaN else if 0 < a then PosInf else NegInf)"
| "fmul (Fin a) NegInf = (if a = 0 then NaN else if 0 < a then NegInf else PosInf)"
| "fmul PosInf (Fin b) = (if b = 0 then NaN else if 0 < b then PosInf else NegInf)"
| "fmul NegInf (Fin b) = (if b = 0 then NaN else if 0 < b then NegInf else PosInf)"
| "fmul PosInf PosInf = PosInf"
| "fmul PosInf NegInf = NegInf"
| "fmul NegInf PosInf = NegInf"
| "fmul NegInf NegInf = PosInf"
| "fmul NaN _ = NaN"
| "fmul _ NaN = NaN"

fun fdiv :: "number \<Rightarrow> number \<Rightarrow> number" where
  "fdiv (Fin a) (Fin b) =
     (if b = 0 then (if a = 0 then NaN else if 0 < a then PosInf else NegInf)
      else round64 (a / b))"
| "fdiv (Fin a) PosInf = Fin 0"
| "fdiv (Fin a) NegInf = Fin 0"
| "fdiv PosInf (Fin b) = (if 0 \<le> b then PosInf else NegInf)"
| "fdiv NegInf (Fin b) = (if 0 \<le> b then NegInf else PosInf)"
| "fdiv PosInf PosInf = NaN"
| "fdiv PosInf NegInf = NaN"
| "fdiv NegInf PosInf = NaN"
| "fdiv NegInf NegInf = NaN"
| "fdiv NaN _ = NaN"
| "fdiv _ NaN = NaN"

fun fsub :: "number \<Rightarrow> number \<Rightarrow> number" where
  "fsub (Fin a) (Fin b) = round64 (a - b)"
| "fsub (Fin a) PosInf = NegInf"
| "fsub (Fin a) NegInf = PosInf"
| "fsub PosInf (Fin b) = PosInf"
| "fsub NegInf (Fin b) = NegInf"
| "fsub PosInf PosInf = NaN"
| "fsub PosInf NegInf = PosInf"
| "fsub NegInf PosInf = NegInf"
| "fsub NegInf NegInf = NaN"
| "fsub NaN _ = NaN"
| "fsub _ NaN = NaN"

text \<open>
  The remainder \<open>%\<close> truncates the quotient towards zero, so the result has the sign of the
  dividend; it is exact (no rounding takes place).
\<close>

definition trunc :: "rat \<Rightarrow> int" where
  "trunc t = (if 0 \<le> t then \<lfloor>t\<rfloor> else \<lceil>t\<rceil>)"

fun fmod :: "number \<Rightarrow> number \<Rightarrow> number" where
  "fmod (Fin a) (Fin b) = (if b = 0 then NaN else Fin (a - b * of_int (trunc (a / b))))"
| "fmod (Fin a) PosInf = Fin a"
| "fmod (Fin a) NegInf = Fin a"
| "fmod PosInf _ = NaN"
| "fmod NegInf _ = NaN"
| "fmod NaN _ = NaN"
| "fmod _ NaN = NaN"

fun fge :: "number \<Rightarrow> number \<Rightarrow> bool" where
  "fge (Fin a) (Fin b) = (b \<le> a)"
| "fge NaN _ = False"
| "fge _ NaN = False"
| "fge PosInf _ = True"
| "fge _ NegInf = True"
| "fge (Fin a) PosInf = False"
| "fge NegInf _ = False"

text \<open>\<open>Math.floor\<close>: the floor of a double is a double, so nothing is rounded.\<close>

fun math_floor :: "number \<Rightarrow> number" where
  "math_floor (Fin a) = Fin (of_int \<lfloor>a\<rfloor>)"
| "math_floor x = x"

subsection \<open>\<open>toFixed(2)\<close> and the rendering of small integers\<close>

definition digit :: "nat \<Rightarrow> char" where
  "digit d = ''0123456789'' ! d"

fun decimal :: "nat \<Rightarrow> string" where
  "decimal n = (if n < 10 then [digit n] else decimal (n div 10) @ [digit (n mod 10)])"

declare decimal.simps [simp del]

text \<open>
  \<open>Number.prototype.toFixed\<close> with two fraction digits. Of a finite \<open>x\<close> below \<open>10^21\<close> in
  magnitude it gives the sign, then the integer \<open>n\<close> nearest to \<open>\<bar>x\<bar> * 100\<close> (the larger
  one on a tie) written with a point before its last two digits. From \<open>10^21\<close> on it gives
  the exponential rendering of the number, which is kept here as the number itself
  (\<open>Sci\<close>).
\<close>

datatype rendering = Text string | Sci rat

definition hundredths :: "rat \<Rightarrow> nat" where
  "hundredths x = nat \<lfloor>\<bar>x\<bar> * 100 + 1 / 2\<rfloor>"

definition point2 :: "nat \<Rightarrow> string" where
  "point2 n =
     (let m = decimal n;
          m' = (if length m \<le> 2 then replicate (3 - length m) CHR ''0'' @ m else m);
          k = length m'
      in take (k - 2) m' @ ''.'' @ drop (k - 2) m')"

fun toFixed2 :: "number \<Rightarrow> rendering" where
  "toFixed2 (Fin x) =
     (if 10 ^ 21 \<le> \<bar>x\<bar> then Sci x
      else Text ((if x < 0 then ''-'' else '''') @ point2 (hundredths x)))"
| "toFixed2 PosInf = Text ''Infinity''"
| "toFixed2 NegInf = Text ''-Infinity''"
| "toFixed2 NaN = Text ''NaN''"

section \<open>The bulk pricing calculator\<close>

text \<open>
  The tool \<open>bulk_pricing_calculator\<close> of the pricing example (\<open>bulkPricingCalculatorTool\<close>).
  Its parameters are checked by the schema
  \<open>{basePrice: number, quantity: number, unit: 'g' | 'oz' | 'lb', tier?: string}\<close>; the
  function \<open>execute\<close> has no \<open>throw\<close> and no check of its own, and it does not read the
  optional parameter \<open>tier\<close> (the field \<open>tier_wanted\<close> below).

  The errors are those that the specification names; a tool returns \<open>Inl\<close> of an error
  or \<open>Inr\<close> of its result.
\<close>

datatype error = InvalidInput | InvalidUnit | InvalidQuantity

datatype price_unit = Price_g | Price_oz | Price_lb

record pricing_input =
  basePrice :: number
  quantity :: number
  unit :: price_unit
  tier_wanted :: "string option"

record pricing_breakdown =
  pounds :: rendering
  unitPrice :: rendering
  totalPrice :: rendering

record pricing_output =
  originalPrice :: number
  discountedPrice :: rendering
  discountRate :: string
  tier :: string
  totalSavings :: rendering
  pricing_breakdown :: pricing_breakdown

text \<open>
  The table \<open>conversionFactors\<close> (\<open>g: 1 / 453.592, oz: 1 / 16, lb: 1\<close>) and the pound
  value \<open>pounds = input.quantity * conversionFactors[input.unit]\<close>.
\<close>

definition conversionFactors :: "price_unit \<Rightarrow> number" where
  "conversionFactors u =
     (case u of
        Price_g \<Rightarrow> fdiv (Fin 1) (lit (453592 / 1000))
      | Price_oz \<Rightarrow> fdiv (Fin 1) (Fin 16)
      | Price_lb \<Rightarrow> Fin 1)"

definition pounds_of :: "number \<Rightarrow> price_unit \<Rightarrow> number" where
  "pounds_of q u = fmul q (conversionFactors u)"

text \<open>
  The chain \<open>if (pounds >= 100) ... else if (pounds >= 50) ... else if (pounds >= 25) ... else\<close>
  that sets \<open>discountRate\<close> and \<open>tier\<close> from the pound value; it is what the
  specification calls \<open>resolveTier\<close>. The rate is one of the literals 0, 5, 10, 15.
\<close>

definition resolveTier :: "number \<Rightarrow> nat \<times> string" where
  "resolveTier p =
     (if fge p (Fin 100) then (15, ''Master 2 (100lbs+)'')
      else if fge p (Fin 50) then (10, ''Master (50lbs+)'')
      else if fge p (Fin 25) then (5, ''Distro (25lbs+)'')
      else (0, ''Standard Pricing''))"

text \<open>
  \<open>discountedPrice = input.basePrice * (1 - discountRate / 100)\<close> and
  \<open>totalSavings = (input.basePrice - discountedPrice) * input.quantity\<close>.
\<close>

definition discountedPrice_of :: "number \<Rightarrow> nat \<Rightarrow> number" where
  "discountedPrice_of bp rate = fmul bp (fsub (Fin 1) (fdiv (Fin (of_nat rate)) (Fin 100)))"

definition totalSavings_of :: "number \<Rightarrow> nat \<Rightarrow> number \<Rightarrow> number" where
  "totalSavings_of bp rate q = fmul (fsub bp (discountedPrice_of bp rate)) q"

definition bulkPricingCalculatorTool :: "pricing_input \<Rightarrow> error + pricing_output" where
  "bulkPricingCalculatorTool input =
     (let p = pounds_of (quantity input) (unit input);
          (rate, label) = resolveTier p;
          dp = discountedPrice_of (basePrice input) rate;
          savings = totalSavings_of (basePrice input) rate (quantity input)
      in Inr \<lparr>originalPrice = basePrice input,
              discountedPrice = toFixed2 dp,
              discountRate = decimal rate @ ''%'',
              tier = label,
              totalSavings = toFixed2 savings,
              pricing_breakdown =
                \<lparr>pounds = toFixed2 p,
                 unitPrice = toFixed2 dp,
                 totalPrice = toFixed2 (fmul dp (quantity input))\<rparr>\<rparr>)"

section \<open>The weight conversion tool\<close>

text \<open>
  The tool \<open>weight_conversion\<close> of the inventory example (\<open>weightConversionTool\<close>), with
  the schema
  \<open>{fromWeight: number, fromUnit, toUnit: 'g' | 'oz' | 'lb' | 'kg', bulkPricing: boolean}\<close>.
  Its \<open>execute\<close> has no \<open>throw\<close> either.
\<close>

datatype weight_unit = G | Oz | Lb | Kg

record weight_input =
  fromWeight :: number
  fromUnit :: weight_unit
  toUnit :: weight_unit
  bulkPricing :: bool

record breakdown =
  eighths :: number
  quarters :: number
  halfOunces :: number
  ounces :: number
  remaining :: rendering

text \<open>
  The fields \<open>original\<close> and \<open>converted\<close> are template strings, a number followed by the
  name of a unit. They are kept as pairs: \<open>original\<close> of the number itself (its rendering
  by the template is not modelled) and the unit, \<open>converted\<close> of the result rendered by
  \<open>toFixed(2)\<close> and the unit.
\<close>

record weight_output =
  original :: "number \<times> weight_unit"
  converted :: "rendering \<times> weight_unit"
  bulkDiscount :: string
  breakdown :: breakdown

text \<open>
  The table \<open>toGrams\<close> (\<open>g: 1, oz: 28.3495, lb: 453.592, kg: 1000\<close>) and the conversion
  \<open>grams = input.fromWeight * toGrams[input.fromUnit]\<close>,
  \<open>result = grams / toGrams[input.toUnit]\<close>, which the specification calls \<open>convert\<close>.
\<close>

definition toGrams :: "weight_unit \<Rightarrow> number" where
  "toGrams u =
     (case u of
        G \<Rightarrow> Fin 1
      | Oz \<Rightarrow> lit (283495 / 10000)
      | Lb \<Rightarrow> lit (453592 / 1000)
      | Kg \<Rightarrow> Fin 1000)"

definition convert :: "number \<Rightarrow> weight_unit \<Rightarrow> weight_unit \<Rightarrow> number" where
  "convert q u v = (let grams = fmul q (toGrams u) in fdiv grams (toGrams v))"

text \<open>
  The variable \<open>bulkDiscount\<close>: 0 unless the flag is set and the target unit is \<open>lb\<close>.
\<close>

definition bulkDiscount_of :: "bool \<Rightarrow> weight_unit \<Rightarrow> number \<Rightarrow> nat" where
  "bulkDiscount_of flag v result =
     (if flag \<and> v = Lb then
        (if fge result (Fin 100) then 15
         else if fge result (Fin 50) then 10
         else if fge result (Fin 25) then 5
         else 0)
      else 0)"

text \<open>
  The object \<open>breakdown\<close> of the result, computed from \<open>result\<close>; it is what the
  specification calls \<open>decompose\<close>.
\<close>

definition decompose :: "number \<Rightarrow> breakdown" where
  "decompose result =
     \<lparr>eighths = math_floor (fdiv result (Fin (7 / 2))),
      quarters = math_floor (fdiv result (Fin 7)),
      halfOunces = math_floor (fdiv result (Fin 14)),
      ounces = math_floor (fdiv result (Fin 28)),
      remaining = toFixed2 (fmod result (Fin 28))\<rparr>"

definition weightConversionTool :: "weight_input \<Rightarrow> error + weight_output" where
  "weightConversionTool input =
     (let result = convert (fromWeight input) (fromUnit input) (toUnit input);
          d = bulkDiscount_of (bulkPricing input) (toUnit input) result
      in Inr \<lparr>original = (fromWeight input, fromUnit input),
              converted = (toFixed2 result, toUnit input),
              bulkDiscount = (if 0 < d then decimal d @ ''%'' else ''None''),
              breakdown = decompose result\<rparr>)"

text \<open>The units that the pricing calculator accepts, as units of the converter.\<close>

definition as_weight_unit :: "price_unit \<Rightarrow> weight_unit" where
  "as_weight_unit u = (case u of Price_g \<Rightarrow> G | Price_oz \<Rightarrow> Oz | Price_lb \<Rightarrow> Lb)"

section \<open>The specification's tier table\<close>

text \<open>
  The discount tiers as the specification lists them, highest threshold first: minimum
  pounds, discount percentage, label. The first entry whose threshold the quantity reaches
  is the one that applies.
\<close>

definition tier_table :: "(rat \<times> nat \<times> string) list" where
  "tier_table =
     [(100, 15, ''Master 2 (100lbs+)''),
      (50, 10, ''Master (50lbs+)''),
      (25, 5, ''Distro (25lbs+)''),
      (0, 0, ''Standard Pricing'')]"

definition first_match :: "rat \<Rightarrow> (rat \<times> nat \<times> string) option" where
  "first_match p = List.find (\<lambda>(t, d, l). t \<le> p) tier_table"

section \<open>Auxiliary notions\<close>

text \<open>The spacing of the doubles whose binary exponent is \<open>e\<close>.\<close>

definition quantum :: "int \<Rightarrow> rat" where
  "quantum e = 2 powi (max e (- 1022) - 52)"

text \<open>\<open>within_rel tol r q\<close>: the number \<open>r\<close> is finite and differs from \<open>q\<close> by at most \<open>tol * \<bar>q\<bar>\<close>.\<close>

definition within_rel :: "rat \<Rightarrow> number \<Rightarrow> rat \<Rightarrow> bool" where
  "within_rel tol r q = (case r of Fin y \<Rightarrow> \<bar>y - q\<bar> \<le> tol * \<bar>q\<bar> | _ \<Rightarrow> False)"

section \<open>Rounding to binary64\<close>

subsection \<open>Powers of two and the binary exponent\<close>

lemma pow2_le_iff: "(2::rat) powi a \<le> 2 powi b \<longleftrightarrow> a \<le> b"
proof
  assume h: "(2::rat) powi a \<le> 2 powi b"
  show "a \<le> b"
  proof (rule ccontr)
    assume "\<not> a \<le> b"
    then have "b < a" by simp
    then have "(2::rat) powi b < 2 powi a" by (intro power_int_strict_increasing) simp_all
    with h show False by simp
  qed
next
  assume "a \<le> b"
  then show "(2::rat) powi a \<le> 2 powi b" by (intro power_int_increasing) simp_all
qed

lemma pow2_less_iff: "(2::rat) powi a < 2 powi b \<longleftrightarrow> a < b"
  using pow2_le_iff [of b a] by (simp add: not_le [symmetric])

lemma ilog2_bounds:
  assumes "0 < x"
  shows "2 powi ilog2 x \<le> x \<and> x < 2 powi (ilog2 x + 1)"
proof (cases "1 \<le> x")
  case True
  define n where "n = \<lfloor>x\<rfloor>"
  have n1: "1 \<le> n" using True by (simp add: n_def)
  then have n0: "0 < n" by simp
  from bitlen_bounds [OF n0]
  have lo: "2 ^ nat (bitlen n - 1) \<le> n" and hi: "n < 2 ^ nat (bitlen n)" by auto
  have bl: "1 \<le> bitlen n" using n0 by (simp add: bitlen_def floorlog_def)
  have il: "ilog2 x = bitlen n - 1" using True by (simp add: ilog2_def n_def)
  have "(2::rat) powi (bitlen n - 1) = 2 ^ nat (bitlen n - 1)"
    using bl by (simp add: power_int_def)
  also have "\<dots> = of_int (2 ^ nat (bitlen n - 1))" by simp
  also have "\<dots> \<le> of_int n" using lo by (simp only: of_int_le_iff)
  also have "\<dots> \<le> x" by (simp add: n_def)
  finally have A: "2 powi ilog2 x \<le> x" by (simp add: il)
  have "x < of_int (n + 1)" unfolding n_def by linarith
  also have "\<dots> \<le> of_int (2 ^ nat (bitlen n))" using hi by (simp only: of_int_le_iff)
  also have "\<dots> = (2::rat) powi (bitlen n)" using bl by (simp add: power_int_def)
  finally have B: "x < 2 powi (ilog2 x + 1)" by (simp add: il)
  from A B show ?thesis by simp
next
  case False
  then have x1: "x < 1" by simp
  define m where "m = \<lceil>1 / x\<rceil>"
  have inv1: "1 < 1 / x" using assms x1 by (simp add: field_simps)
  have m2: "2 \<le> m" using inv1 unfolding m_def by linarith
  then have m0: "0 < m - 1" by simp
  define k where "k = bitlen (m - 1)"
  from bitlen_bounds [OF m0]
  have lo: "2 ^ nat (k - 1) \<le> m - 1" and hi: "m - 1 < 2 ^ nat k" by (auto simp: k_def)
  have k1: "1 \<le> k" using m0 by (simp add: k_def bitlen_def floorlog_def)
  have il: "ilog2 x = - k" using False by (simp add: ilog2_def m_def k_def)
  have "1 / x \<le> of_int m" by (simp add: m_def)
  also have "\<dots> \<le> of_int (2 ^ nat k)" using hi by (simp only: of_int_le_iff)
  finally have "1 / x \<le> 2 ^ nat k" by simp
  then have "1 / 2 ^ nat k \<le> x" using assms by (simp add: field_simps)
  moreover have "(2::rat) powi (- k) = 1 / 2 ^ nat k"
    using k1 by (simp add: power_int_def field_simps)
  ultimately have A: "2 powi ilog2 x \<le> x" by (simp add: il)
  have "(2::rat) ^ nat (k - 1) = of_int (2 ^ nat (k - 1))" by simp
  also have "\<dots> \<le> of_int (m - 1)" using lo by (simp only: of_int_le_iff)
  also have "\<dots> < 1 / x" unfolding m_def by linarith
  finally have "(2::rat) ^ nat (k - 1) < 1 / x" .
  then have "x < 1 / 2 ^ nat (k - 1)" using assms by (simp add: field_simps)
  moreover have "(2::rat) powi (- k + 1) = 1 / 2 ^ nat (k - 1)"
  proof (cases "k = 1")
    case True then show ?thesis by simp
  next
    case False
    then have "- k + 1 < 0" using k1 by simp
    then show ?thesis by (simp add: power_int_def field_simps)
  qed
  ultimately have B: "x < 2 powi (ilog2 x + 1)" by (simp add: il)
  from A B show ?thesis by simp
qed

lemma ilog2_unique:
  assumes "0 < x" "2 powi e \<le> x" "x < 2 powi (e + 1)"
  shows "ilog2 x = e"
proof -
  from ilog2_bounds [OF assms(1)]
  have A: "2 powi ilog2 x \<le> x" and B: "x < 2 powi (ilog2 x + 1)" by auto
  have "(2::rat) powi e < 2 powi (ilog2 x + 1)" using assms(2) B by simp
  then have 1: "e < ilog2 x + 1" by (simp add: pow2_less_iff)
  have "(2::rat) powi ilog2 x < 2 powi (e + 1)" using assms(3) A by simp
  then have 2: "ilog2 x < e + 1" by (simp add: pow2_less_iff)
  from 1 2 show ?thesis by simp
qed

subsection \<open>Rounding to the nearest integer, ties to even\<close>

lemma rhe_err: "\<bar>of_int (round_half_even t) - t\<bar> \<le> 1 / 2"
proof -
  have "of_int \<lfloor>t\<rfloor> \<le> t" "t < of_int \<lfloor>t\<rfloor> + 1" by linarith+
  then show ?thesis
    unfolding round_half_even_def Let_def by (auto simp: abs_le_iff)
qed

lemma rhe_of_int [simp]: "round_half_even (of_int n) = n"
  by (simp add: round_half_even_def)

lemma rhe_mono:
  assumes "t \<le> s"
  shows "round_half_even t \<le> round_half_even s"
proof -
  have fl: "\<lfloor>t\<rfloor> \<le> \<lfloor>s\<rfloor>" using assms by (rule floor_mono)
  have t1: "\<lfloor>t\<rfloor> \<le> round_half_even t" "round_half_even t \<le> \<lfloor>t\<rfloor> + 1"
    by (simp_all add: round_half_even_def Let_def)
  have s1: "\<lfloor>s\<rfloor> \<le> round_half_even s" "round_half_even s \<le> \<lfloor>s\<rfloor> + 1"
    by (simp_all add: round_half_even_def Let_def)
  show ?thesis
  proof (cases "\<lfloor>t\<rfloor> = \<lfloor>s\<rfloor>")
    case True
    have "t - of_int \<lfloor>s\<rfloor> \<le> s - of_int \<lfloor>s\<rfloor>" using assms by simp
    then show ?thesis
      unfolding round_half_even_def Let_def True by (auto split: if_splits)
  next
    case False
    then have "\<lfloor>t\<rfloor> + 1 \<le> \<lfloor>s\<rfloor>" using fl by simp
    then show ?thesis using t1 s1 by linarith
  qed
qed

lemma rhe_ge: "of_int n \<le> t \<Longrightarrow> n \<le> round_half_even t"
  using rhe_mono [of "of_int n" t] by simp

lemma rhe_le: "t \<le> of_int n \<Longrightarrow> round_half_even t \<le> n"
  using rhe_mono [of t "of_int n"] by simp

lemma rhe_less:
  assumes "t < of_int n - 1 / 2"
  shows "round_half_even t < n"
proof -
  have "of_int (round_half_even t) \<le> t + 1 / 2" using rhe_err [of t] by linarith
  also have "\<dots> < of_int n" using assms by simp
  finally show ?thesis by simp
qed

lemma quantum_pos [simp]: "0 < quantum e"
  by (simp add: quantum_def)

lemma round64_pos:
  assumes "0 < x"
  shows "round64 x =
      (let y = of_int (round_half_even (x / quantum (ilog2 x))) * quantum (ilog2 x)
       in if 2 powi 1024 \<le> y then PosInf else Fin y)"
  using assms by (simp add: round64_def Let_def quantum_def)

lemma round64_exp:
  assumes "0 < x" "2 powi e \<le> x" "x < 2 powi (e + 1)"
  shows "round64 x =
      (let y = of_int (round_half_even (x / quantum e)) * quantum e
       in if 2 powi 1024 \<le> y then PosInf else Fin y)"
  using round64_pos [OF assms(1)] ilog2_unique [OF assms] by simp

lemma rhe_eval:
  assumes "of_int n - 1 / 2 < t" "t < of_int n + 1 / 2"
  shows "round_half_even t = n"
proof -
  have "\<bar>of_int (round_half_even t) - t\<bar> \<le> 1 / 2" by (rule rhe_err)
  then have "of_int (round_half_even t) - t \<le> 1 / 2" "t - of_int (round_half_even t) \<le> 1 / 2"
    by (simp_all only: abs_le_iff minus_diff_eq)
  then have "rat_of_int (round_half_even t) < of_int (n + 1)"
    and "rat_of_int (n - 1) < of_int (round_half_even t)"
    using assms by simp_all
  then have "round_half_even t < n + 1" "n - 1 < round_half_even t"
    by (simp_all only: of_int_less_iff)
  then show ?thesis by simp
qed

lemma round64_eval:
  assumes "0 < x" "2 powi e \<le> x" "x < 2 powi (e + 1)" "- 1022 \<le> e" "e \<le> 1023"
    and "of_int n - 1 / 2 < x / 2 powi (e - 52)" "x / 2 powi (e - 52) < of_int n + 1 / 2"
    and "of_int n * 2 powi (e - 52) < (2::rat) powi 1024"
  shows "round64 x = Fin (of_int n * 2 powi (e - 52))"
proof -
  have q: "quantum e = 2 powi (e - 52)" using assms(4) by (simp add: quantum_def max_def)
  have "round_half_even (x / 2 powi (e - 52)) = n"
    using assms(6,7) by (rule rhe_eval)
  then show ?thesis
    using round64_exp [OF assms(1-3)] assms(8) by (simp add: q Let_def)
qed


subsection \<open>Doubles are fixed points of the rounding\<close>

lemma powi_diff: "(2::rat) powi a / 2 powi b = 2 powi (a - b)"
  by (simp add: power_int_diff)

lemma powi_mult: "(2::rat) powi a * 2 powi b = 2 powi (a + b)"
  by (simp add: power_int_add)

lemma round64_grid:
  assumes y: "0 < y" and M: "y / quantum (ilog2 y) = of_int M" and ov: "y < 2 powi 1024"
  shows "round64 y = Fin y"
proof -
  have "of_int M * quantum (ilog2 y) = y"
    using M quantum_pos [of "ilog2 y"] by (simp add: field_simps)
  then show ?thesis using ov by (simp add: round64_pos [OF y] M Let_def)
qed

lemma round64_dyadic:
  assumes N: "0 < N" "N \<le> 2 ^ 53" and k: "- 1074 \<le> k"
    and ov: "of_int N * 2 powi k < (2::rat) powi 1024"
  shows "round64 (of_int N * 2 powi k) = Fin (of_int N * 2 powi k)"
proof -
  define y :: rat where "y = of_int N * 2 powi k"
  have y0: "0 < y" using N by (simp add: y_def)
  define e where "e = ilog2 y"
  define E where "E = max e (- 1022)"
  have b: "2 powi e \<le> y" "y < 2 powi (e + 1)"
    using ilog2_bounds [OF y0] by (simp_all add: e_def)
  have q: "quantum (ilog2 y) = 2 powi (E - 52)" by (simp add: quantum_def E_def e_def)
  have yle: "y \<le> 2 powi (k + 53)"
  proof -
    have "rat_of_int N \<le> of_int (2 ^ 53)" using N(2) by (simp only: of_int_le_iff)
    then have "rat_of_int N \<le> 2 powi 53" by simp
    then have "y \<le> 2 powi 53 * 2 powi k" unfolding y_def by (intro mult_right_mono) simp_all
    also have "\<dots> = 2 powi (k + 53)" by (simp only: powi_mult add.commute)
    finally show ?thesis .
  qed
  have "\<exists>M. y / 2 powi (E - 52) = of_int M"
  proof (cases "0 \<le> k - E + 52")
    case True
    have "y / 2 powi (E - 52) = of_int N * (2 powi k / 2 powi (E - 52))" by (simp add: y_def)
    also have "\<dots> = of_int N * 2 powi (k - E + 52)"
      by (simp only: powi_diff) (simp add: algebra_simps)
    also have "\<dots> = of_int N * 2 ^ nat (k - E + 52)" using True by (simp add: power_int_def)
    also have "\<dots> = of_int (N * 2 ^ nat (k - E + 52))" by simp
    finally show ?thesis by blast
  next
    case False
    then have Ek: "k + 53 \<le> E" by simp
    then have Ee: "E = e" using k by (simp add: E_def max_def split: if_splits)
    have "(2::rat) powi (k + 53) \<le> 2 powi e" using Ek Ee by (simp add: pow2_le_iff)
    with b(1) yle have yeq: "y = 2 powi (k + 53)" and "(2::rat) powi e \<le> 2 powi (k + 53)" by simp_all
    then have "e \<le> k + 53" by (simp add: pow2_le_iff)
    with Ek Ee have ee: "e = k + 53" by simp
    have "y / 2 powi (E - 52) = 2 powi 52"
      unfolding yeq Ee ee by (simp only: powi_diff) (simp add: algebra_simps)
    also have "\<dots> = of_int (2 ^ 52)" by simp
    finally show ?thesis by blast
  qed
  then obtain M where "y / quantum (ilog2 y) = of_int M" using q by auto
  from round64_grid [OF y0 this] ov show ?thesis by (simp add: y_def)
qed

lemma round64_0 [simp]: "round64 0 = Fin 0"
  by (simp add: round64_def)

lemma round64_of_int_pos:
  assumes "0 < n" "n \<le> 2 ^ 53"
  shows "round64 (of_int n) = Fin (of_int n)"
proof -
  have "rat_of_int n \<le> of_int (2 ^ 53)" using assms(2) by (simp only: of_int_le_iff)
  then have "rat_of_int n * 2 powi 0 < 2 powi 1024" by simp
  from round64_dyadic [OF assms _ this] show ?thesis by simp
qed

lemma round64_numeral [simp]:
  "numeral k \<le> (9007199254740992::int) \<Longrightarrow> round64 (numeral k) = Fin (numeral k)"
  using round64_of_int_pos [of "numeral k"] by simp

lemma round64_1 [simp]: "round64 1 = Fin 1"
  using round64_of_int_pos [of 1] by simp

subsection \<open>Ties, symmetry, idempotence, overflow and the relative error\<close>

lemma quantum_nonneg [simp]: "0 \<le> quantum e"
  by (simp add: quantum_def)

lemma quantum_nonzero [simp]: "quantum e \<noteq> 0"
  by (simp add: quantum_def)

lemma rhe_tie: "round_half_even (of_int f + 1 / 2) = (if even f then f else f + 1)"
proof -
  have "\<lfloor>rat_of_int f + 1 / 2\<rfloor> = f" by linarith
  then show ?thesis by (simp add: round_half_even_def Let_def)
qed

lemma round64_tie:
  assumes "0 < x" "2 powi e \<le> x" "x < 2 powi (e + 1)" "- 1022 \<le> e" "e \<le> 1023"
    and "x / 2 powi (e - 52) = of_int f + 1 / 2"
    and "n = (if even f then f else f + 1)"
    and "of_int n * 2 powi (e - 52) < (2::rat) powi 1024"
  shows "round64 x = Fin (of_int n * 2 powi (e - 52))"
proof -
  have q: "quantum e = 2 powi (e - 52)" using assms(4) by (simp add: quantum_def max_def)
  have "round_half_even (x / 2 powi (e - 52)) = n"
    unfolding assms(6) assms(7) by (rule rhe_tie)
  then show ?thesis
    using round64_exp [OF assms(1-3)] assms(8) by (simp add: q Let_def)
qed

lemma round64_neg:
  "round64 (- x) = (case round64 x of Fin y \<Rightarrow> Fin (- y) | PosInf \<Rightarrow> NegInf
                     | NegInf \<Rightarrow> PosInf | NaN \<Rightarrow> NaN)"
  by (cases "x = 0"; cases "0 < x") (simp_all add: round64_def Let_def)

lemma rhe_nonneg: "0 \<le> t \<Longrightarrow> 0 \<le> round_half_even t"
  using rhe_ge [of 0 t] by simp

lemma round64_pos_form:
  assumes "0 < x" "round64 x = Fin y"
  obtains N where "0 \<le> N" "N \<le> 2 ^ 53" "y = of_int N * quantum (ilog2 x)" "y < 2 powi 1024"
proof -
  define e where "e = ilog2 x"
  define N where "N = round_half_even (x / quantum e)"
  have b: "2 powi e \<le> x" "x < 2 powi (e + 1)"
    using ilog2_bounds [OF assms(1)] by (simp_all add: e_def)
  have "x / quantum e < 2 powi (e + 1) / quantum e"
    using b(2) by (simp add: divide_strict_right_mono)
  also have "\<dots> = 2 powi (e + 1 - (max e (- 1022) - 52))"
    by (simp only: quantum_def powi_diff)
  also have "\<dots> \<le> 2 powi 53" by (simp only: pow2_le_iff)
  finally have "x / quantum e \<le> of_int (2 ^ 53)" by simp
  then have N2: "N \<le> 2 ^ 53" unfolding N_def by (rule rhe_le)
  have "0 \<le> x / quantum e" using assms(1) by simp
  then have N0: "0 \<le> N" unfolding N_def by (rule rhe_nonneg)
  from assms(2) have "y = of_int N * quantum e \<and> y < 2 powi 1024"
    unfolding round64_pos [OF assms(1)] Let_def N_def e_def
    by (simp split: if_splits)
  with N0 N2 that show thesis by (simp add: e_def)
qed

lemma round64_idem_pos:
  assumes "0 < x" "round64 x = Fin y"
  shows "round64 y = Fin y"
proof -
  from round64_pos_form [OF assms] obtain N where
    N: "0 \<le> N" "N \<le> 2 ^ 53" "y = of_int N * quantum (ilog2 x)" "y < 2 powi 1024" .
  show ?thesis
  proof (cases "N = 0")
    case True
    then show ?thesis using N(3) by simp
  next
    case False
    then have "0 < N" using N(1) by simp
    moreover have "- 1074 \<le> max (ilog2 x) (- 1022) - 52" by simp
    ultimately show ?thesis
      using round64_dyadic [of N "max (ilog2 x) (- 1022) - 52"] N(2,3,4)
      by (simp add: quantum_def)
  qed
qed

lemma round64_idem:
  assumes "round64 x = Fin y"
  shows "round64 y = Fin y"
proof -
  consider "x = 0" | "0 < x" | "x < 0" by linarith
  then show ?thesis
  proof cases
    case 1
    then show ?thesis using assms by simp
  next
    case 2
    then show ?thesis using assms by (rule round64_idem_pos)
  next
    case 3
    then have p: "0 < - x" by simp
    from assms have "round64 (- x) = Fin (- y)"
      by (simp add: round64_neg)
    from round64_idem_pos [OF p this] have "round64 (- y) = Fin (- y)" .
    then show ?thesis
      using round64_neg [of "- y"] by (simp split: number.splits)
  qed
qed

lemma round64_is_double: "round64 x = Fin y \<Longrightarrow> is_double y"
  unfolding is_double_def by (rule round64_idem)

lemma round64_overflow:
  assumes "2 powi 1024 \<le> x"
  shows "round64 x = PosInf"
proof -
  have "(0::rat) < 2 powi 1024" by simp
  with assms have x0: "0 < x" by linarith
  define e where "e = ilog2 x"
  have b: "2 powi e \<le> x" "x < 2 powi (e + 1)"
    using ilog2_bounds [OF x0] by (simp_all add: e_def)
  have "(2::rat) powi 1024 < 2 powi (e + 1)" using assms b(2) by simp
  then have "1024 < e + 1" by (simp only: pow2_less_iff)
  then have e: "1024 \<le> e" by simp
  then have q: "quantum e = 2 powi (e - 52)" by (simp add: quantum_def max_def)
  have "rat_of_int (2 ^ 52) = 2 powi e / 2 powi (e - 52)" by (simp add: powi_diff)
  also have "\<dots> \<le> x / quantum e" using b(1) by (simp add: q divide_right_mono)
  finally have "2 ^ 52 \<le> round_half_even (x / quantum e)" by (rule rhe_ge)
  then have "rat_of_int (2 ^ 52) \<le> of_int (round_half_even (x / quantum e))"
    by (simp only: of_int_le_iff)
  then have "rat_of_int (2 ^ 52) * quantum e \<le> of_int (round_half_even (x / quantum e)) * quantum e"
    by (intro mult_right_mono) simp_all
  moreover have "rat_of_int (2 ^ 52) * quantum e = 2 powi e"
    unfolding q using powi_mult [of 52 "e - 52"] by simp
  moreover have "(2::rat) powi 1024 \<le> 2 powi e" using e by (simp only: pow2_le_iff)
  ultimately have "2 powi 1024 \<le> of_int (round_half_even (x / quantum e)) * quantum e"
    by linarith
  then show ?thesis using round64_pos [OF x0] by (simp add: e_def Let_def)
qed

lemma round64_normal:
  assumes "2 powi (- 1022) \<le> x" "x < 2 powi 1023"
  obtains y where "round64 x = Fin y" "\<bar>y - x\<bar> \<le> x / 2 ^ 53"
proof -
  have "(0::rat) < 2 powi (- 1022)" by simp
  with assms(1) have x0: "0 < x" by linarith
  define e where "e = ilog2 x"
  have b: "2 powi e \<le> x" "x < 2 powi (e + 1)"
    using ilog2_bounds [OF x0] by (simp_all add: e_def)
  have "(2::rat) powi (- 1022) < 2 powi (e + 1)" using assms(1) b(2) by simp
  then have "- 1022 < e + 1" by (simp only: pow2_less_iff)
  then have e1: "- 1022 \<le> e" by simp
  have "(2::rat) powi e < 2 powi 1023" using assms(2) b(1) by simp
  then have "e < 1023" by (simp only: pow2_less_iff)
  then have e2: "e \<le> 1022" by simp
  have q: "quantum e = 2 powi (e - 52)" using e1 by (simp add: quantum_def max_def)
  define N where "N = round_half_even (x / quantum e)"
  define y where "y = of_int N * quantum e"
  have "\<bar>of_int N - x / quantum e\<bar> \<le> 1 / 2" unfolding N_def by (rule rhe_err)
  then have "\<bar>of_int N - x / quantum e\<bar> * quantum e \<le> 1 / 2 * quantum e"
    by (intro mult_right_mono) simp_all
  moreover have "\<bar>of_int N - x / quantum e\<bar> * quantum e = \<bar>y - x\<bar>"
  proof -
    have "\<bar>of_int N - x / quantum e\<bar> * quantum e = \<bar>(of_int N - x / quantum e) * quantum e\<bar>"
      by (simp add: abs_mult)
    also have "(of_int N - x / quantum e) * quantum e = y - x"
      using quantum_pos [of e] by (simp add: y_def field_simps)
    finally show ?thesis .
  qed
  ultimately have err: "\<bar>y - x\<bar> \<le> quantum e / 2" by simp
  have "quantum e / 2 = 2 powi e / 2 ^ 53"
    unfolding q using powi_diff [of e 52] by simp
  also have "\<dots> \<le> x / 2 ^ 53" using b(1) by (simp add: divide_right_mono)
  finally have qx: "quantum e / 2 \<le> x / 2 ^ 53" .
  have "y \<le> x + x / 2 ^ 53" using err qx by linarith
  also have "\<dots> \<le> 2 * x" using x0 by simp
  also have "\<dots> < 2 * 2 powi 1023" using assms(2) by simp
  also have "\<dots> = 2 powi 1024" by simp
  finally have "y < 2 powi 1024" .
  then have "round64 x = Fin y"
    using round64_pos [OF x0] by (simp add: e_def Let_def y_def N_def)
  moreover have "\<bar>y - x\<bar> \<le> x / 2 ^ 53" using err qx by linarith
  ultimately show thesis by (rule that)
qed

subsection \<open>Evaluation on numerals\<close>

lemma floor_rat_numeral_div [simp]: "\<lfloor>numeral a / numeral b :: rat\<rfloor> = numeral a div numeral b"
  using floor_divide_of_int_eq [of "numeral a" "numeral b", where ?'a = rat] by simp

lemma floor_rat_one_div [simp]: "\<lfloor>1 / numeral b :: rat\<rfloor> = 1 div numeral b"
  using floor_divide_of_int_eq [of 1 "numeral b", where ?'a = rat] by simp

lemma ceiling_rat_numeral_div [simp]:
  "\<lceil>numeral a / numeral b :: rat\<rceil> = - (- numeral a div numeral b)"
  using floor_divide_of_int_eq [of "- numeral a" "numeral b", where ?'a = rat]
  by (simp add: ceiling_def)

lemma decimal_numeral [simp]:
  "decimal (numeral k) =
     (if numeral k < (10::nat) then [digit (numeral k)]
      else decimal (numeral k div 10) @ [digit (numeral k mod 10)])"
  by (rule decimal.simps)

lemma decimal_0 [simp]: "decimal 0 = ''0''"
  by (simp add: decimal.simps digit_def)

lemma decimal_1 [simp]: "decimal (Suc 0) = ''1''"
  by (simp add: decimal.simps digit_def)

lemmas eval_simps = digit_def point2_def hundredths_def trunc_def Let_def

section \<open>The constant tables\<close>

lemma toGrams_G [simp]: "toGrams G = Fin 1"
  by (simp add: toGrams_def)

lemma toGrams_Oz: "toGrams Oz = Fin (3989837426129371 / 140737488355328)"
  unfolding toGrams_def lit_def
  using round64_eval [of "283495 / 10000" 4 7979674852258742] by simp

lemma toGrams_Lb: "toGrams Lb = Fin (3989837426129371 / 8796093022208)"
  unfolding toGrams_def lit_def
  using round64_eval [of "453592 / 1000" 8 7979674852258742] by simp

lemma toGrams_Kg [simp]: "toGrams Kg = Fin 1000"
  by (simp add: toGrams_def)

lemma conversionFactors_g:
  "conversionFactors Price_g = Fin (5083517807222557 / 2305843009213693952)"
  unfolding conversionFactors_def lit_def
  using round64_eval [of "453592 / 1000" 8 7979674852258742]
    round64_eval [of "8796093022208 / 3989837426129371" "- 9" 5083517807222557] by simp

lemma conversionFactors_oz: "conversionFactors Price_oz = Fin (1 / 16)"
  unfolding conversionFactors_def
  using round64_eval [of "1 / 16" "- 4" "2 ^ 52"] by simp

lemma conversionFactors_lb [simp]: "conversionFactors Price_lb = Fin 1"
  by (simp add: conversionFactors_def)

lemma lit_24999: "lit (24999 / 1000) = Fin (7036592942789689 / 281474976710656)"
  unfolding lit_def using round64_eval [of "24999 / 1000" 4 7036592942789689] by simp

section \<open>Chains of roundings\<close>

lemma round64_rel:
  assumes "2 powi (- 1022) \<le> x" "x < 2 powi 1023"
  obtains d where "round64 x = Fin (x * (1 + d))" "\<bar>d\<bar> \<le> 1 / 2 ^ 53"
proof -
  have "(0::rat) < 2 powi (- 1022)" by simp
  with assms(1) have x0: "0 < x" by linarith
  from round64_normal [OF assms] obtain y where
    y: "round64 x = Fin y" "\<bar>y - x\<bar> \<le> x / 2 ^ 53" .
  define d where "d = (y - x) / x"
  have 1: "x * (1 + d) = y" using x0 by (simp add: d_def field_simps)
  have "\<bar>d\<bar> = \<bar>y - x\<bar> / x" using x0 by (simp add: d_def)
  also have "\<dots> \<le> (x / 2 ^ 53) / x" using y(2) x0 by (simp add: divide_right_mono)
  also have "\<dots> = 1 / 2 ^ 53" using x0 by simp
  finally have 2: "\<bar>d\<bar> \<le> 1 / 2 ^ 53" .
  have "round64 x = Fin (x * (1 + d))" using y(1) 1 by simp
  then show thesis using 2 by (rule that)
qed

text \<open>
  One rounding in a chain: the exact value is a base \<open>B\<close> in a safe range times a factor
  \<open>P\<close> close to 1 that collects the relative errors made so far.
\<close>

lemma round64_step:
  assumes "x = B * P" "2 powi (- 1010) \<le> B" "B \<le> 2 powi 1010" "1 / 2 \<le> P" "P \<le> 2"
  obtains d where "round64 x = Fin (B * (P * (1 + d)))" "\<bar>d\<bar> \<le> 1 / 2 ^ 53"
proof -
  have B0: "0 < B" using assms(2) by (simp add: less_le_trans [of 0 "2 powi (- 1010)"])
  have "2 powi (- 1010) * (1 / 2) \<le> B * P"
    using assms(2,4) by (intro mult_mono) simp_all
  moreover have "(2::rat) powi (- 1022) \<le> 2 powi (- 1010) * (1 / 2)" by simp
  ultimately have lo: "2 powi (- 1022) \<le> x" unfolding assms(1) by linarith
  have P0: "0 \<le> P" using assms(4) by simp
  have "B * P \<le> 2 powi 1010 * 2"
    using assms(3,5) B0 P0 by (intro mult_mono) simp_all
  moreover have "(2::rat) powi 1010 * 2 < 2 powi 1023" by simp
  ultimately have hi: "x < 2 powi 1023" unfolding assms(1) by linarith
  from round64_rel [OF lo hi] obtain d where
    "round64 x = Fin (x * (1 + d))" "\<bar>d\<bar> \<le> 1 / 2 ^ 53" .
  then show thesis using that [of d] by (simp add: assms(1) mult.assoc)
qed

lemma factor_step:
  fixes P d lo hi :: rat
  assumes "lo \<le> P" "P \<le> hi" "0 \<le> lo" "\<bar>d\<bar> \<le> 1 / 2 ^ 53"
  shows "lo * (1 - 1 / 2 ^ 53) \<le> P * (1 + d)" "P * (1 + d) \<le> hi * (1 + 1 / 2 ^ 53)"
proof -
  have d: "1 - 1 / 2 ^ 53 \<le> 1 + d" "1 + d \<le> 1 + 1 / 2 ^ 53" using assms(4) by (simp_all add: abs_le_iff)
  have P0: "0 \<le> P" using assms(1,3) by simp
  show "lo * (1 - 1 / 2 ^ 53) \<le> P * (1 + d)"
    using assms(1,3) d(1) by (intro mult_mono) simp_all
  have "0 \<le> 1 + d" using d(1) by simp
  then show "P * (1 + d) \<le> hi * (1 + 1 / 2 ^ 53)"
    using assms(2) d(2) P0 by (intro mult_mono) simp_all
qed

lemma toGrams_range_ex: "\<exists>c. toGrams U = Fin c \<and> 1 \<le> c \<and> c \<le> 1000"
proof (cases U)
  case G
  then show ?thesis by simp
next
  case Oz
  show ?thesis
    by (rule exI [of _ "3989837426129371 / 140737488355328"]) (simp add: Oz toGrams_Oz)
next
  case Lb
  show ?thesis
    by (rule exI [of _ "3989837426129371 / 8796093022208"]) (simp add: Lb toGrams_Lb)
next
  case Kg
  then show ?thesis by simp
qed

lemma toGrams_range: obtains c where "toGrams U = Fin c" "1 \<le> c" "c \<le> 1000"
  using toGrams_range_ex [of U] by blast

lemma convert_zero: "convert (Fin 0) U V = Fin 0"
  by (cases U; cases V) (simp_all add: convert_def toGrams_Oz toGrams_Lb)

text \<open>
  A conversion rounds twice: its result is the exact quotient times a factor within two
  relative errors of 1.
\<close>

lemma convert_form:
  assumes "2 powi (- 1000) \<le> q" "q \<le> 2 powi 1000"
    and a: "toGrams U = Fin a" "1 \<le> a" "a \<le> 1000"
    and b: "toGrams V = Fin b" "1 \<le> b" "b \<le> 1000"
  obtains P where "convert (Fin q) U V = Fin (q * a / b * P)"
    "(1 - 1 / 2 ^ 53) * (1 - 1 / 2 ^ 53) \<le> P" "P \<le> (1 + 1 / 2 ^ 53) * (1 + 1 / 2 ^ 53)"
proof -
  have a0: "a \<noteq> 0" "0 < a" "0 \<le> a" using a(2) by simp_all
  have b0: "b \<noteq> 0" "0 < b" "0 \<le> b" using b(2) by simp_all
  have q0: "0 < q" using assms(1) by (simp add: less_le_trans [of 0 "2 powi (- 1000)"])
  have B1: "2 powi (- 1010) \<le> q * a" "q * a \<le> 2 powi 1010"
  proof -
    have "2 powi (- 1000) * 1 \<le> q * a" using assms(1) a(2) by (intro mult_mono) simp_all
    then show "2 powi (- 1010) \<le> q * a" by simp
    have "q * a \<le> 2 powi 1000 * 1000" using assms(2) a(3) q0 a0 by (intro mult_mono) simp_all
    then show "q * a \<le> 2 powi 1010" by simp
  qed
  have B2: "2 powi (- 1010) \<le> q * a / b" "q * a / b \<le> 2 powi 1010"
  proof -
    have "2 powi (- 1000) * 1 / 1000 \<le> q * a / b"
      using B1 assms(1) a(2) b(3) b0 q0 by (intro frac_le mult_mono) simp_all
    then show "2 powi (- 1010) \<le> q * a / b" by simp
    have "q * a / b \<le> 2 powi 1000 * 1000 / 1"
      using assms(2) a(3) b(2) q0 a0 by (intro frac_le mult_mono) simp_all
    then show "q * a / b \<le> 2 powi 1010" by simp
  qed
  let ?l = "(1::rat) - 1 / 2 ^ 53" and ?h = "(1::rat) + 1 / 2 ^ 53"
  have h0: "(1::rat) / 2 \<le> 1" "(1::rat) \<le> 2" by simp_all
  have e1: "q * a = q * a * 1" by simp
  from round64_step [OF e1 B1 h0]
  obtain d1 where d1: "round64 (q * a) = Fin (q * a * (1 * (1 + d1)))" "\<bar>d1\<bar> \<le> 1 / 2 ^ 53" .
  define P1 where "P1 = 1 + d1"
  have P1: "?l \<le> P1" "P1 \<le> ?h"
    using d1(2) by (simp_all add: P1_def abs_le_iff)
  have r1: "fmul (Fin q) (toGrams U) = Fin (q * a * P1)"
    using d1(1) by (simp add: a(1) P1_def)
  have x2: "q * a * P1 / b = q * a / b * P1" by simp
  have h1: "1 / 2 \<le> P1" "P1 \<le> 2" using P1 by simp_all
  from round64_step [OF refl B2 h1]
  obtain d2 where d2: "round64 (q * a / b * P1) = Fin (q * a / b * (P1 * (1 + d2)))"
      "\<bar>d2\<bar> \<le> 1 / 2 ^ 53" .
  define P2 where "P2 = P1 * (1 + d2)"
  have l0: "0 \<le> ?l" by simp
  have P2: "?l * ?l \<le> P2" "P2 \<le> ?h * ?h"
    unfolding P2_def by (rule factor_step [OF P1 l0 d2(2)])+
  have r2: "convert (Fin q) U V = Fin (q * a / b * P2)"
  proof -
    have "convert (Fin q) U V = round64 (q * a * P1 / b)"
      using b0 by (simp add: convert_def Let_def r1 b(1))
    also have "\<dots> = round64 (q * a / b * P1)" by (simp only: x2)
    also have "\<dots> = Fin (q * a / b * P2)" unfolding P2_def by (rule d2(1))
    finally show ?thesis .
  qed
  from r2 P2 show thesis by (rule that)
qed

lemma convert_same_unit_rel:
  assumes "2 powi (- 1000) \<le> q" "q \<le> 2 powi 1000"
  obtains y where "convert (Fin q) U U = Fin y" "\<bar>y - q\<bar> \<le> q / 10 ^ 15"
proof -
  obtain c where c: "toGrams U = Fin c" "1 \<le> c" "c \<le> 1000" by (rule toGrams_range)
  have c0: "c \<noteq> 0" using c(2) by simp
  have q0: "0 < q" using assms(1) by (simp add: less_le_trans [of 0 "2 powi (- 1000)"])
  from convert_form [OF assms c c] obtain P where
    P: "convert (Fin q) U U = Fin (q * c / c * P)"
      "(1 - 1 / 2 ^ 53) * (1 - 1 / 2 ^ 53) \<le> P" "P \<le> (1 + 1 / 2 ^ 53) * (1 + 1 / 2 ^ 53)" .
  have conv: "convert (Fin q) U U = Fin (q * P)" using P(1) c0 by simp
  have "(1::rat) - 1 / 10 ^ 15 \<le> (1 - 1 / 2 ^ 53) * (1 - 1 / 2 ^ 53)"
    and "((1::rat) + 1 / 2 ^ 53) * (1 + 1 / 2 ^ 53) \<le> 1 + 1 / 10 ^ 15" by simp_all
  with P(2,3) have "1 - 1 / 10 ^ 15 \<le> P" "P \<le> 1 + 1 / 10 ^ 15"
    by (blast intro: order_trans)+
  then have "\<bar>P - 1\<bar> \<le> 1 / 10 ^ 15" by (simp only: abs_le_iff) linarith
  then have "q * \<bar>P - 1\<bar> \<le> q * (1 / 10 ^ 15)" using q0 by (intro mult_left_mono) simp_all
  moreover have "\<bar>q * P - q\<bar> = q * \<bar>P - 1\<bar>"
  proof -
    have "q * P - q = q * (P - 1)" by (simp add: algebra_simps)
    then show ?thesis using q0 by (simp add: abs_mult)
  qed
  ultimately have "\<bar>q * P - q\<bar> \<le> q / 10 ^ 15" by simp
  with conv that show thesis by blast
qed

section \<open>The floor of a rounded quotient\<close>

lemma mantissa_le:
  assumes "0 < x"
  shows "round_half_even (x / quantum (ilog2 x)) \<le> 2 ^ 53"
proof -
  define e where "e = ilog2 x"
  have b: "x < 2 powi (e + 1)" using ilog2_bounds [OF assms] by (simp add: e_def)
  have "x / quantum e < 2 powi (e + 1) / quantum e"
    using b by (simp add: divide_strict_right_mono)
  also have "\<dots> = 2 powi (e + 1 - (max e (- 1022) - 52))"
    by (simp only: quantum_def powi_diff)
  also have "\<dots> \<le> 2 powi 53" by (simp only: pow2_le_iff)
  finally have "x / quantum e \<le> of_int (2 ^ 53)" by simp
  then show ?thesis unfolding e_def by (rule rhe_le)
qed

lemma round64_below_overflow:
  assumes "0 < x" "x < 2 powi 1023"
  shows "round64 x = Fin (of_int (round_half_even (x / quantum (ilog2 x))) * quantum (ilog2 x))"
proof -
  define e where "e = ilog2 x"
  define N where "N = round_half_even (x / quantum e)"
  have "2 powi e \<le> x" using ilog2_bounds [OF assms(1)] by (simp add: e_def)
  with assms(2) have "(2::rat) powi e < 2 powi 1023" by simp
  then have e: "e < 1023" by (simp only: pow2_less_iff)
  have "rat_of_int N \<le> of_int (2 ^ 53)"
    using mantissa_le [OF assms(1)] unfolding N_def e_def by (simp only: of_int_le_iff)
  then have "rat_of_int N * quantum e \<le> of_int (2 ^ 53) * quantum e"
    by (intro mult_right_mono) simp_all
  also have "\<dots> = 2 powi 53 * 2 powi (max e (- 1022) - 52)" by (simp add: quantum_def)
  also have "\<dots> = 2 powi (53 + (max e (- 1022) - 52))" by (simp only: powi_mult)
  also have "\<dots> < 2 powi 1024" using e by (simp only: pow2_less_iff)
  finally have "rat_of_int N * quantum e < 2 powi 1024" .
  then show ?thesis
    using round64_pos [OF assms(1)] by (simp add: Let_def N_def e_def)
qed

lemma is_double_grid:
  assumes "is_double r" "0 < r"
  obtains M where "r = of_int M * quantum (ilog2 r)"
proof -
  from assms(1) have "round64 r = Fin r" by (simp add: is_double_def)
  then have "of_int (round_half_even (r / quantum (ilog2 r))) * quantum (ilog2 r) = r"
    unfolding round64_pos [OF assms(2)] Let_def by (simp split: if_splits)
  then show thesis using that by metis
qed

lemma quotient_gap:
  fixes r x :: rat and k n e :: int
  assumes dbl: "is_double r" and r52: "r < 2 ^ 52" and k: "- 1 \<le> k" "k \<le> 2"
    and x: "x = r / (7 * 2 powi k)" and xh: "1 / 2 \<le> x" and xn: "x < of_int n"
    and e: "2 powi e \<le> x" "x < 2 powi (e + 1)"
  shows "2 powi (e - 53) < of_int n - x"
proof -
  define c :: rat where "c = 7 * 2 powi k"
  have c0: "0 < c" by (simp add: c_def)
  have x0: "0 < x" using xh by simp
  have rx: "r = x * c" using c0 by (simp add: x c_def)
  have r0: "0 < r" unfolding rx using x0 c0 by simp
  define j where "j = ilog2 r"
  have bj: "2 powi j \<le> r" "r < 2 powi (j + 1)"
    using ilog2_bounds [OF r0] by (simp_all add: j_def)
  have p4: "(2::rat) powi (e + k + 2) = 2 powi e * (4 * 2 powi k)"
  proof -
    have "(2::rat) powi (e + k + 2) = 2 powi e * 2 powi (k + 2)"
      by (simp only: powi_mult add.assoc)
    also have "(2::rat) powi (k + 2) = 2 powi k * 2 powi 2" by (simp only: powi_mult)
    finally show ?thesis by simp
  qed
  have "2 powi e * (4 * 2 powi k) \<le> x * (4 * 2 powi k)"
    using e(1) by (intro mult_right_mono) simp_all
  also have "\<dots> < x * c" unfolding c_def using x0 by (intro mult_strict_left_mono) simp_all
  finally have "2 powi (e + k + 2) < r" by (simp only: p4 rx)
  with bj(2) have "(2::rat) powi (e + k + 2) < 2 powi (j + 1)" by simp
  then have "e + k + 2 < j + 1" by (simp only: pow2_less_iff)
  then have ejk: "e + k + 2 \<le> j" by simp
  have "(2::rat) powi (- 1) \<le> x" using xh by simp
  with e(2) have "(2::rat) powi (- 1) < 2 powi (e + 1)" by simp
  then have "- 1 < e + 1" by (simp only: pow2_less_iff)
  then have e1: "- 1 \<le> e" by simp
  have j0: "0 \<le> j" using ejk e1 k(1) by simp
  have "(2::rat) powi j < 2 powi 52" using bj(1) r52 by simp
  then have j52: "j < 52" by (simp only: pow2_less_iff)
  define g :: rat where "g = 2 powi (j - 52)"
  have g0: "0 < g" by (simp add: g_def)
  have qj: "quantum (ilog2 r) = g" using j0 by (simp add: quantum_def g_def j_def max_def)
  from is_double_grid [OF dbl r0] obtain M where M: "r = of_int M * g" unfolding qj .
  define t where "t = nat (k - j + 52)"
  have t: "int t = k - j + 52" using k(1) j52 by (simp add: t_def)
  have ck: "(2::rat) powi k = 2 ^ t * g"
  proof -
    have "(2::rat) ^ t = 2 powi (int t)" by simp
    also have "\<dots> = 2 powi (k - j + 52)" by (simp only: t)
    finally have "(2::rat) ^ t * g = 2 powi (k - j + 52) * 2 powi (j - 52)" by (simp add: g_def)
    also have "\<dots> = 2 powi (k - j + 52 + (j - 52))" by (simp only: powi_mult)
    also have "\<dots> = 2 powi k" by simp
    finally show ?thesis by simp
  qed
  define m where "m = 7 * n * 2 ^ t - M"
  have D: "c * of_int n - r = of_int m * g"
    by (simp add: c_def ck M m_def algebra_simps)
  have "r < of_int n * c" unfolding rx using xn c0 by (simp add: mult_strict_right_mono)
  then have "0 < of_int m * g" using D by (simp add: mult.commute)
  then have "0 < rat_of_int m" using g0 by (simp add: zero_less_mult_iff)
  then have "1 \<le> m" by simp
  then have "rat_of_int 1 \<le> of_int m" by (simp only: of_int_le_iff)
  then have "1 * g \<le> of_int m * g" using g0 by (intro mult_right_mono) simp_all
  then have Dg: "g \<le> c * of_int n - r" using D by simp
  have nx: "of_int n - x = (c * of_int n - r) / c" using c0 by (simp add: rx field_simps)
  have "2 powi (e - 53) * c < g"
  proof -
    have "2 powi (e - 53) * c = 7 * (2 powi (e - 53) * 2 powi k)" by (simp add: c_def)
    also have "\<dots> = 7 * 2 powi (e - 53 + k)" by (simp only: powi_mult)
    also have "\<dots> < 8 * 2 powi (e - 53 + k)" by simp
    also have "\<dots> = 2 powi 3 * 2 powi (e - 53 + k)" by simp
    also have "\<dots> = 2 powi (3 + (e - 53 + k))" by (simp only: powi_mult)
    also have "\<dots> \<le> 2 powi (j - 52)" using ejk by (simp only: pow2_le_iff)
    finally show ?thesis by (simp add: g_def)
  qed
  then have "2 powi (e - 53) < g / c" using c0 by (simp add: field_simps)
  also have "\<dots> \<le> (c * of_int n - r) / c" using Dg c0 by (simp add: divide_right_mono)
  finally show ?thesis by (simp only: nx)
qed

lemma floor_quotient_exact:
  fixes r :: rat and k :: int
  assumes dbl: "is_double r" and r0: "0 \<le> r" and r52: "r < 2 ^ 52" and k: "- 1 \<le> k" "k \<le> 2"
  shows "\<exists>y. round64 (r / (7 * 2 powi k)) = Fin y \<and> \<lfloor>y\<rfloor> = \<lfloor>r / (7 * 2 powi k)\<rfloor>"
proof (cases "r = 0")
  case True
  then show ?thesis by simp
next
  case False
  with r0 have rp: "0 < r" by simp
  define c :: rat where "c = 7 * 2 powi k"
  define x where "x = r / c"
  have "(2::rat) powi (- 1) \<le> 2 powi k" using k(1) by (simp only: pow2_le_iff)
  then have c1: "1 \<le> c" by (simp add: c_def)
  then have c0: "0 < c" by simp
  have x0: "0 < x" using rp c0 by (simp add: x_def)
  have "r / c \<le> r / 1" using c1 rp by (intro divide_left_mono) simp_all
  then have xr: "x \<le> r" by (simp add: x_def)
  with r52 have x52: "x < 2 powi 52" by simp
  then have x1023: "x < 2 powi 1023" by simp
  define e where "e = ilog2 x"
  have be: "2 powi e \<le> x" "x < 2 powi (e + 1)"
    using ilog2_bounds [OF x0] by (simp_all add: e_def)
  have "(2::rat) powi e < 2 powi 52" using be(1) x52 by simp
  then have e52: "e < 52" by (simp only: pow2_less_iff)
  define E where "E = max e (- 1022)"
  have E51: "E \<le> 51" using e52 by (simp add: E_def)
  define w :: rat where "w = 2 powi (E - 52)"
  have w0: "0 < w" by (simp add: w_def)
  have qw: "quantum (ilog2 x) = w" by (simp add: quantum_def w_def E_def e_def)
  define s where "s = nat (52 - E)"
  have s: "int s = 52 - E" using E51 by (simp add: s_def)
  have ws: "w * 2 ^ s = 1"
  proof -
    have "(2::rat) ^ s = 2 powi (int s)" by simp
    also have "\<dots> = 2 powi (52 - E)" by (simp only: s)
    finally have "w * 2 ^ s = 2 powi (E - 52) * 2 powi (52 - E)" by (simp add: w_def)
    also have "\<dots> = 2 powi (E - 52 + (52 - E))" by (simp only: powi_mult)
    finally show ?thesis by simp
  qed
  have xw: "x / w = x * 2 ^ s" using ws w0 by (simp add: field_simps)
  have "(2::rat) powi (E - 52) \<le> 2 powi (- 1)" using E51 by (simp only: pow2_le_iff)
  then have wh: "w \<le> 1 / 2" by (simp add: w_def)
  define N where "N = round_half_even (x / w)"
  define y where "y = of_int N * w"
  have run: "round64 x = Fin y"
    using round64_below_overflow [OF x0 x1023] by (simp add: qw y_def N_def)
  define n where "n = \<lfloor>x\<rfloor> + 1"
  have fl: "of_int (n - 1) \<le> x" "x < of_int n" unfolding n_def by linarith+
  have n1: "1 \<le> n" using x0 by (simp add: n_def)
  have "rat_of_int ((n - 1) * 2 ^ s) = of_int (n - 1) * 2 ^ s" by simp
  also have "\<dots> \<le> x * 2 ^ s" using fl(1) by (intro mult_right_mono) simp_all
  finally have "rat_of_int ((n - 1) * 2 ^ s) \<le> x / w" by (simp only: xw)
  then have "(n - 1) * 2 ^ s \<le> N" unfolding N_def by (rule rhe_ge)
  then have "rat_of_int ((n - 1) * 2 ^ s) \<le> of_int N" by (simp only: of_int_le_iff)
  then have "rat_of_int ((n - 1) * 2 ^ s) * w \<le> of_int N * w"
    using w0 by (intro mult_right_mono) simp_all
  moreover have "rat_of_int ((n - 1) * 2 ^ s) * w = of_int (n - 1) * (w * 2 ^ s)"
    by (simp add: mult.commute mult.left_commute)
  ultimately have lo: "of_int (n - 1) \<le> y" by (simp only: ws y_def mult_1_right)
  have gap: "w / 2 < of_int n - x"
  proof (cases "x < 1 / 2")
    case True
    have "rat_of_int 1 \<le> of_int n" using n1 by (simp only: of_int_le_iff)
    then show ?thesis using True wh by simp
  next
    case False
    then have xh: "1 / 2 \<le> x" by simp
    then have "(2::rat) powi (- 1) \<le> x" by simp
    with be(2) have "(2::rat) powi (- 1) < 2 powi (e + 1)" by simp
    then have "- 1 < e + 1" by (simp only: pow2_less_iff)
    then have Ee: "E = e" by (simp add: E_def)
    have "w / 2 = 2 powi (e - 52) / 2 powi 1" by (simp add: w_def Ee)
    also have "\<dots> = 2 powi (e - 52 - 1)" by (simp only: powi_diff)
    finally have w2: "w / 2 = 2 powi (e - 53)" by simp
    show ?thesis
      unfolding w2
      by (rule quotient_gap [OF dbl r52 k _ xh fl(2) be]) (simp add: x_def c_def)
  qed
  have "x * 2 ^ s + 1 / 2 < of_int n * 2 ^ s"
  proof -
    have "(w / 2) * 2 ^ s < (of_int n - x) * 2 ^ s"
      using gap by (intro mult_strict_right_mono) simp_all
    moreover have "(w / 2) * 2 ^ s = 1 / 2" using ws by simp
    ultimately show ?thesis by (simp add: algebra_simps)
  qed
  then have "x / w < rat_of_int (n * 2 ^ s) - 1 / 2" by (simp add: xw)
  then have "N < n * 2 ^ s" unfolding N_def by (rule rhe_less)
  then have "N \<le> n * 2 ^ s - 1" by simp
  then have "rat_of_int N \<le> of_int (n * 2 ^ s - 1)" by (simp only: of_int_le_iff)
  then have "rat_of_int N * w \<le> of_int (n * 2 ^ s - 1) * w"
    using w0 by (intro mult_right_mono) simp_all
  moreover have "rat_of_int (n * 2 ^ s - 1) * w = of_int n * (w * 2 ^ s) - w"
    by (simp add: algebra_simps)
  ultimately have "y \<le> of_int n - w" by (simp only: ws y_def mult_1_right)
  with w0 have hi: "y < of_int n" by simp
  have "\<lfloor>y\<rfloor> = n - 1" using lo hi by (intro floor_unique) simp_all
  moreover have "\<lfloor>x\<rfloor> = n - 1" by (simp add: n_def)
  ultimately show ?thesis using run by (simp add: x_def c_def)
qed

section \<open>The volume discount\<close>

text \<open>
  Claim C4. The thresholds are tried from the highest down and the first one reached decides:
  for every non-negative pound quantity the result of \<open>resolveTier\<close> is the first match in
  the specification's table, and each tier is the result on exactly its own band, so that
  exactly one tier applies. At the boundaries, 25 gives Distro and 5 percent, 24.999 gives
  Standard and 0 percent, 50 gives Master and 10 percent, 100 gives Master 2 and 15 percent.
\<close>

theorem resolveTier_first_match_wins:
  assumes "0 \<le> p"
  shows "map_option snd (first_match p) = Some (resolveTier (Fin p))
    \<and> (resolveTier (Fin p) = (15, ''Master 2 (100lbs+)'') \<longleftrightarrow> 100 \<le> p)
    \<and> (resolveTier (Fin p) = (10, ''Master (50lbs+)'') \<longleftrightarrow> 50 \<le> p \<and> p < 100)
    \<and> (resolveTier (Fin p) = (5, ''Distro (25lbs+)'') \<longleftrightarrow> 25 \<le> p \<and> p < 50)
    \<and> (resolveTier (Fin p) = (0, ''Standard Pricing'') \<longleftrightarrow> p < 25)
    \<and> resolveTier (Fin 25) = (5, ''Distro (25lbs+)'')
    \<and> resolveTier (lit (24999 / 1000)) = (0, ''Standard Pricing'')
    \<and> resolveTier (Fin 50) = (10, ''Master (50lbs+)'')
    \<and> resolveTier (Fin 100) = (15, ''Master 2 (100lbs+)'')"
proof (intro conjI)
  show "map_option snd (first_match p) = Some (resolveTier (Fin p))"
    using assms by (simp add: resolveTier_def first_match_def tier_table_def)
  show "resolveTier (Fin p) = (15, ''Master 2 (100lbs+)'') \<longleftrightarrow> 100 \<le> p"
    by (simp add: resolveTier_def)
  show "resolveTier (Fin p) = (10, ''Master (50lbs+)'') \<longleftrightarrow> 50 \<le> p \<and> p < 100"
    by (simp add: resolveTier_def)
  show "resolveTier (Fin p) = (5, ''Distro (25lbs+)'') \<longleftrightarrow> 25 \<le> p \<and> p < 50"
    by (simp add: resolveTier_def)
  show "resolveTier (Fin p) = (0, ''Standard Pricing'') \<longleftrightarrow> p < 25"
    by (simp add: resolveTier_def)
  show "resolveTier (Fin 25) = (5, ''Distro (25lbs+)'')"
    by (simp add: resolveTier_def)
  show "resolveTier (lit (24999 / 1000)) = (0, ''Standard Pricing'')"
    by (simp add: resolveTier_def lit_24999)
  show "resolveTier (Fin 50) = (10, ''Master (50lbs+)'')"
    by (simp add: resolveTier_def)
  show "resolveTier (Fin 100) = (15, ''Master 2 (100lbs+)'')"
    by (simp add: resolveTier_def)
qed

theorem resolveTier_first_match_wins_witness:
  "(0::rat) \<le> 30 \<and> first_match 30 = Some (25, 5, ''Distro (25lbs+)'')
   \<and> resolveTier (Fin 30) = (5, ''Distro (25lbs+)'')"
  using resolveTier_first_match_wins [of 30, THEN conjunct1]
  by (simp add: first_match_def tier_table_def)

text \<open>
  Claim C7. The discount percentage never decreases when the pound quantity grows: for
  non-negative quantities \<open>p1 < p2\<close> the discount of \<open>p1\<close> is at most that of \<open>p2\<close>.
\<close>

theorem discount_monotone:
  assumes "0 \<le> p1" "p1 < p2"
  shows "fst (resolveTier (Fin p1)) \<le> fst (resolveTier (Fin p2))"
  using assms by (simp add: resolveTier_def)

theorem discount_monotone_witness:
  "(0::rat) \<le> 30 \<and> (30::rat) < 60 \<and> fst (resolveTier (Fin 30)) \<le> fst (resolveTier (Fin 60))"
  using discount_monotone [of 30 60] by simp

section \<open>Validation in the bulk pricing calculator\<close>

text \<open>
  Claim C1 says that a call with a base price or a quantity that is not positive fails with
  \<open>InvalidInput\<close> and produces no result. The tool has no such check: with price 0 and
  quantity 0 it returns a complete quote.
\<close>

theorem priceBulk_zero_is_quoted:
  "bulkPricingCalculatorTool
     \<lparr>basePrice = Fin 0, quantity = Fin 0, unit = Price_lb, tier_wanted = None\<rparr>
   = Inr \<lparr>originalPrice = Fin 0, discountedPrice = Text ''0.00'', discountRate = ''0%'',
           tier = ''Standard Pricing'', totalSavings = Text ''0.00'',
           pricing_breakdown =
             \<lparr>pounds = Text ''0.00'', unitPrice = Text ''0.00'', totalPrice = Text ''0.00''\<rparr>\<rparr>"
  by (simp add: bulkPricingCalculatorTool_def pounds_of_def resolveTier_def
      discountedPrice_of_def totalSavings_of_def eval_simps)

text \<open>
  Claim C1, amended. The bulk pricing calculator validates neither the base price nor the
  quantity: every call, whatever the sign of its numbers, returns a result record, whose
  original price is the base price it was given.
\<close>

theorem priceBulk_never_fails:
  "\<exists>out. bulkPricingCalculatorTool input = Inr out \<and> originalPrice out = basePrice input"
  by (simp add: bulkPricingCalculatorTool_def Let_def split: prod.split)

section \<open>The bulk discount of the weight conversion\<close>

lemma bulkDiscount_string:
  "(if 0 < bulkDiscount_of flag v r then decimal (bulkDiscount_of flag v r) @ ''%'' else ''None'') =
     (if flag \<and> v = Lb
      then (if fge r (Fin 100) then ''15%''
            else if fge r (Fin 50) then ''10%''
            else if fge r (Fin 25) then ''5%''
            else ''None'')
      else ''None'')"
  by (simp add: bulkDiscount_of_def digit_def)

lemma convert_60_lb: "convert (Fin 60) Lb Lb = Fin 60"
  unfolding convert_def toGrams_Lb Let_def
  using round64_eval [of "59847561391940565 / 2199023255552" 14 7480945173992571]
    round64_eval [of "239390245567762272 / 3989837426129371" 5 8444249301319680]
  by simp

lemma decompose_60:
  "decompose (Fin 60) = \<lparr>eighths = Fin 17, quarters = Fin 8, halfOunces = Fin 4, ounces = Fin 2,
                          remaining = Text ''4.00''\<rparr>"
  unfolding decompose_def
  using round64_eval [of "120 / 7" 4 4825285315039817]
    round64_eval [of "60 / 7" 3 4825285315039817]
    round64_eval [of "30 / 7" 2 4825285315039817]
    round64_eval [of "15 / 7" 1 4825285315039817]
  by (simp add: eval_simps)

text \<open>
  Claim C10. The weight conversion reports a bulk discount other than \<open>None\<close> only when the
  flag \<open>bulkPricing\<close> is set and the target unit is the pound; for any other target unit it
  reports \<open>None\<close> whatever the converted mass; and when the flag is set and the target is
  the pound, the discount is the one that the thresholds 100, 50 and 25 give for the
  converted pound value.
\<close>

theorem bulkDiscount_only_for_pounds:
  assumes "weightConversionTool input = Inr out"
  shows "(bulkDiscount out \<noteq> ''None'' \<longrightarrow> bulkPricing input \<and> toUnit input = Lb)
    \<and> (\<not> (bulkPricing input \<and> toUnit input = Lb) \<longrightarrow> bulkDiscount out = ''None'')
    \<and> (bulkPricing input \<and> toUnit input = Lb \<longrightarrow>
         bulkDiscount out =
           (let result = convert (fromWeight input) (fromUnit input) Lb
            in if fge result (Fin 100) then ''15%''
               else if fge result (Fin 50) then ''10%''
               else if fge result (Fin 25) then ''5%''
               else ''None''))"
proof -
  define r where "r = convert (fromWeight input) (fromUnit input) (toUnit input)"
  have "out = \<lparr>original = (fromWeight input, fromUnit input),
              converted = (toFixed2 r, toUnit input),
              bulkDiscount = (if 0 < bulkDiscount_of (bulkPricing input) (toUnit input) r
                 then decimal (bulkDiscount_of (bulkPricing input) (toUnit input) r) @ ''%''
                 else ''None''),
              breakdown = decompose r\<rparr>"
    using assms unfolding weightConversionTool_def Let_def r_def
    by (simp split del: if_split)
  then have "bulkDiscount out = (if bulkPricing input \<and> toUnit input = Lb
      then (if fge r (Fin 100) then ''15%''
            else if fge r (Fin 50) then ''10%''
            else if fge r (Fin 25) then ''5%''
            else ''None'')
      else ''None'')"
    by (simp only: bulkDiscount_string weight_output.simps)
  then show ?thesis by (simp add: r_def Let_def)
qed

theorem bulkDiscount_only_for_pounds_witness:
  "weightConversionTool \<lparr>fromWeight = Fin 60, fromUnit = Lb, toUnit = Lb, bulkPricing = True\<rparr>
     = Inr \<lparr>original = (Fin 60, Lb), converted = (Text ''60.00'', Lb), bulkDiscount = ''10%'',
             breakdown = \<lparr>eighths = Fin 17, quarters = Fin 8, halfOunces = Fin 4, ounces = Fin 2,
                          remaining = Text ''4.00''\<rparr>\<rparr>
   \<and> bulkPricing \<lparr>fromWeight = Fin 60, fromUnit = Lb, toUnit = Lb, bulkPricing = True\<rparr>
   \<and> toUnit \<lparr>fromWeight = Fin 60, fromUnit = Lb, toUnit = Lb, bulkPricing = True\<rparr> = Lb
   \<and> fge (convert (Fin 60) Lb Lb) (Fin 50) \<and> \<not> fge (convert (Fin 60) Lb Lb) (Fin 100)"
proof -
  let ?inp = "\<lparr>fromWeight = Fin 60, fromUnit = Lb, toUnit = Lb, bulkPricing = True\<rparr>"
  let ?out = "\<lparr>original = (Fin 60, Lb), converted = (toFixed2 (Fin 60), Lb),
                bulkDiscount = bulkDiscount (projr (weightConversionTool ?inp)),
                breakdown = decompose (Fin 60)\<rparr>"
  have run: "weightConversionTool ?inp = Inr ?out"
    by (simp add: weightConversionTool_def Let_def convert_60_lb)
  from bulkDiscount_only_for_pounds [OF run]
  have "bulkDiscount ?out = ''10%''"
    by (simp add: convert_60_lb)
  then have "?out = \<lparr>original = (Fin 60, Lb), converted = (Text ''60.00'', Lb),
      bulkDiscount = ''10%'',
      breakdown = \<lparr>eighths = Fin 17, quarters = Fin 8, halfOunces = Fin 4, ounces = Fin 2,
                   remaining = Text ''4.00''\<rparr>\<rparr>"
    by (simp add: decompose_60 eval_simps)
  with run show ?thesis by (simp add: convert_60_lb)
qed

section \<open>The formulas of the bulk pricing calculator\<close>

lemma round64_1_10: "round64 (1 / 10) = Fin (3602879701896397 / 36028797018963968)"
  using round64_eval [of "1 / 10" "- 4" 7205759403792794] by simp

lemma discountedPrice_45_10: "discountedPrice_of (Fin 45) 10 = Fin (81 / 2)"
  unfolding discountedPrice_of_def
  using round64_eval [of "32425917317067571 / 36028797018963968" "- 1" 8106479329266893]
    round64_eval [of "364791569817010185 / 9007199254740992" 5 5699868278390784]
  by (simp add: round64_1_10)

lemma round64_9_2: "round64 (9 / 2) = Fin (9 / 2)"
  using round64_eval [of "9 / 2" 2 5066549580791808] by simp

lemma priceBulk_unfold:
  "bulkPricingCalculatorTool \<lparr>basePrice = bp, quantity = q, unit = u, tier_wanted = t\<rparr> =
     (let p = fmul q (conversionFactors u);
          d = fst (resolveTier p);
          discounted = fmul bp (fsub (Fin 1) (fdiv (Fin (of_nat d)) (Fin 100)))
      in Inr \<lparr>originalPrice = bp,
              discountedPrice = toFixed2 discounted,
              discountRate = decimal d @ ''%'',
              tier = snd (resolveTier p),
              totalSavings = toFixed2 (fmul (fsub bp discounted) q),
              pricing_breakdown =
                \<lparr>pounds = toFixed2 p,
                 unitPrice = toFixed2 discounted,
                 totalPrice = toFixed2 (fmul discounted q)\<rparr>\<rparr>)"
  by (simp add: bulkPricingCalculatorTool_def pounds_of_def discountedPrice_of_def
      totalSavings_of_def Let_def split: prod.split)

lemma priceBulk_45_50_lb:
  "bulkPricingCalculatorTool
       \<lparr>basePrice = Fin 45, quantity = Fin 50, unit = Price_lb, tier_wanted = None\<rparr>
     = Inr \<lparr>originalPrice = Fin 45, discountedPrice = Text ''40.50'', discountRate = ''10%'',
             tier = ''Master (50lbs+)'', totalSavings = Text ''225.00'',
             pricing_breakdown =
               \<lparr>pounds = Text ''50.00'', unitPrice = Text ''40.50'',
                totalPrice = Text ''2025.00''\<rparr>\<rparr>"
  by (simp add: bulkPricingCalculatorTool_def pounds_of_def resolveTier_def totalSavings_of_def
      discountedPrice_45_10 round64_9_2 eval_simps)

lemma priceBulk_45_800_oz:
  "bulkPricingCalculatorTool
       \<lparr>basePrice = Fin 45, quantity = Fin 800, unit = Price_oz, tier_wanted = None\<rparr>
     = Inr \<lparr>originalPrice = Fin 45, discountedPrice = Text ''40.50'', discountRate = ''10%'',
             tier = ''Master (50lbs+)'', totalSavings = Text ''3600.00'',
             pricing_breakdown =
               \<lparr>pounds = Text ''50.00'', unitPrice = Text ''40.50'',
                totalPrice = Text ''32400.00''\<rparr>\<rparr>"
  by (simp add: bulkPricingCalculatorTool_def pounds_of_def resolveTier_def totalSavings_of_def
      conversionFactors_oz discountedPrice_45_10 round64_9_2 eval_simps)

text \<open>
  Claim C2. For every call of the bulk pricing calculator (in particular every valid one,
  with a positive base price and quantity), the discounted unit price is
  \<open>basePrice * (1 - discountRate / 100)\<close>, the total price is that unit price, unrounded,
  times the quantity as given in its own unit (not the pound equivalent), and the total
  savings are \<open>(basePrice - discounted) * quantity\<close>, all in the arithmetic of doubles
  and each reported with two decimals. The call with price 45 and 50 pounds gives 50.00
  pounds, tier Master, 10 percent, unit price 40.50, total 2025.00 and savings 225.00; the
  same 50 pounds given as 800 ounces give the total 32400.00.
\<close>

theorem priceBulk_formulas:
  "bulkPricingCalculatorTool \<lparr>basePrice = bp, quantity = q, unit = u, tier_wanted = t\<rparr> =
     (let p = fmul q (conversionFactors u);
          d = fst (resolveTier p);
          discounted = fmul bp (fsub (Fin 1) (fdiv (Fin (of_nat d)) (Fin 100)))
      in Inr \<lparr>originalPrice = bp,
              discountedPrice = toFixed2 discounted,
              discountRate = decimal d @ ''%'',
              tier = snd (resolveTier p),
              totalSavings = toFixed2 (fmul (fsub bp discounted) q),
              pricing_breakdown =
                \<lparr>pounds = toFixed2 p,
                 unitPrice = toFixed2 discounted,
                 totalPrice = toFixed2 (fmul discounted q)\<rparr>\<rparr>)
   \<and> bulkPricingCalculatorTool
       \<lparr>basePrice = Fin 45, quantity = Fin 50, unit = Price_lb, tier_wanted = None\<rparr>
     = Inr \<lparr>originalPrice = Fin 45, discountedPrice = Text ''40.50'', discountRate = ''10%'',
             tier = ''Master (50lbs+)'', totalSavings = Text ''225.00'',
             pricing_breakdown =
               \<lparr>pounds = Text ''50.00'', unitPrice = Text ''40.50'',
                totalPrice = Text ''2025.00''\<rparr>\<rparr>
   \<and> bulkPricingCalculatorTool
       \<lparr>basePrice = Fin 45, quantity = Fin 800, unit = Price_oz, tier_wanted = None\<rparr>
     = Inr \<lparr>originalPrice = Fin 45, discountedPrice = Text ''40.50'', discountRate = ''10%'',
             tier = ''Master (50lbs+)'', totalSavings = Text ''3600.00'',
             pricing_breakdown =
               \<lparr>pounds = Text ''50.00'', unitPrice = Text ''40.50'',
                totalPrice = Text ''32400.00''\<rparr>\<rparr>"
  using priceBulk_unfold priceBulk_45_50_lb priceBulk_45_800_oz by (intro conjI)

section \<open>The breakdown into sub-units\<close>



















section \<open>Conversion to the same unit\<close>

lemma within_rel_Fin [simp]: "within_rel tol (Fin y) q \<longleftrightarrow> \<bar>y - q\<bar> \<le> tol * \<bar>q\<bar>"
  by (simp add: within_rel_def)

lemma within_rel_nonfinite [simp]:
  "\<not> within_rel tol PosInf q" "\<not> within_rel tol NegInf q" "\<not> within_rel tol NaN q"
  by (simp_all add: within_rel_def)

lemma convert_G_G:
  assumes "is_double q"
  shows "convert (Fin q) G G = Fin q"
  using assms by (simp add: convert_def is_double_def)

lemma is_double_3: "is_double 3"
  by (simp add: is_double_def)

lemma convert_3_oz: "convert (Fin 3) Oz Oz = Fin (6755399441055743 / 2251799813685248)"
  unfolding convert_def Let_def toGrams_Oz
  using round64_tie [of "11969512278388113 / 140737488355328" 6 5984756139194056 5984756139194056]
    round64_eval [of "11969512278388112 / 3989837426129371" 1 6755399441055743]
  by simp

text \<open>
  Claim C8 says that converting a quantity to its own unit gives the quantity back exactly,
  because the factor is multiplied and then divided out. On doubles the product is rounded
  before the division: 3 ounces come back as \<open>3 - 2 powi - 51\<close>.
\<close>

theorem convert_3_oz_oz_not_3:
  "is_double 3 \<and> convert (Fin 3) Oz Oz = Fin (6755399441055743 / 2251799813685248)
   \<and> convert (Fin 3) Oz Oz \<noteq> Fin 3"
  by (simp add: is_double_3 convert_3_oz)

text \<open>
  Claim C8, amended. Converting a quantity to its own unit gives the quantity back exactly
  when the unit is the gram (both factors are 1); for every unit it gives the quantity back
  within a relative error of \<open>10^-15\<close>, when the quantity is 0 or lies between
  \<open>2 powi - 1000\<close> and \<open>2 powi 1000\<close>.
\<close>

theorem convert_identity_up_to_rounding:
  "(is_double q \<longrightarrow> convert (Fin q) G G = Fin q)
   \<and> (q = 0 \<or> 2 powi (- 1000) \<le> q \<and> q \<le> 2 powi 1000 \<longrightarrow>
        within_rel (1 / 10 ^ 15) (convert (Fin q) U U) q)"
proof (intro conjI impI)
  assume "is_double q"
  then show "convert (Fin q) G G = Fin q" by (rule convert_G_G)
next
  assume "q = 0 \<or> 2 powi (- 1000) \<le> q \<and> q \<le> 2 powi 1000"
  then show "within_rel (1 / 10 ^ 15) (convert (Fin q) U U) q"
  proof
    assume "q = 0"
    then show ?thesis by (simp add: convert_zero)
  next
    assume r: "2 powi (- 1000) \<le> q \<and> q \<le> 2 powi 1000"
    then have q0: "0 < q" by (simp add: less_le_trans [of 0 "2 powi (- 1000)"])
    from r convert_same_unit_rel [of q U] obtain y where
      "convert (Fin q) U U = Fin y" "\<bar>y - q\<bar> \<le> q / 10 ^ 15" by blast
    then show ?thesis using q0 by simp
  qed
qed

theorem convert_identity_up_to_rounding_witness:
  "is_double 3 \<and> convert (Fin 3) G G = Fin 3
   \<and> 2 powi (- 1000) \<le> (3::rat) \<and> (3::rat) \<le> 2 powi 1000
   \<and> within_rel (1 / 10 ^ 15) (convert (Fin 3) Oz Oz) 3"
  using convert_identity_up_to_rounding [of 3 Oz] is_double_3 by simp

section \<open>The round trip through another unit\<close>

lemma round_trip_rel:
  assumes "2 powi (- 1000) \<le> q" "q \<le> 2 powi 1000"
  obtains y where "convert (convert (Fin q) U V) V U = Fin y" "\<bar>y - q\<bar> \<le> q / 10 ^ 15"
proof -
  obtain a where a: "toGrams U = Fin a" "1 \<le> a" "a \<le> 1000" by (rule toGrams_range)
  obtain b where b: "toGrams V = Fin b" "1 \<le> b" "b \<le> 1000" by (rule toGrams_range)
  have a0: "a \<noteq> 0" "0 < a" "0 \<le> a" using a(2) by simp_all
  have b0: "b \<noteq> 0" "0 < b" "0 \<le> b" using b(2) by simp_all
  have q0: "0 < q" using assms(1) by (simp add: less_le_trans [of 0 "2 powi (- 1000)"])
  have B1: "2 powi (- 1010) \<le> q * a" "q * a \<le> 2 powi 1010"
  proof -
    have "2 powi (- 1000) * 1 \<le> q * a" using assms(1) a(2) by (intro mult_mono) simp_all
    then show "2 powi (- 1010) \<le> q * a" by simp
    have "q * a \<le> 2 powi 1000 * 1000" using assms(2) a(3) q0 a0 by (intro mult_mono) simp_all
    then show "q * a \<le> 2 powi 1010" by simp
  qed
  let ?l = "(1::rat) - 1 / 2 ^ 53" and ?h = "(1::rat) + 1 / 2 ^ 53"
  from convert_form [OF assms a b] obtain P2 where
    r2: "convert (Fin q) U V = Fin (q * a / b * P2)" and P2: "?l * ?l \<le> P2" "P2 \<le> ?h * ?h" .
  have B4: "2 powi (- 1010) \<le> q" "q \<le> 2 powi 1010" using assms by simp_all
  have x3: "q * a / b * P2 * b = q * a * P2" using b0 by simp
  have h2: "1 / 2 \<le> P2" "P2 \<le> 2" using P2 by simp_all
  from round64_step [OF refl B1 h2]
  obtain d3 where d3: "round64 (q * a * P2) = Fin (q * a * (P2 * (1 + d3)))" "\<bar>d3\<bar> \<le> 1 / 2 ^ 53" .
  define P3 where "P3 = P2 * (1 + d3)"
  have l1: "0 \<le> ?l * ?l" by simp
  have P3: "?l * ?l * ?l \<le> P3" "P3 \<le> ?h * ?h * ?h"
    unfolding P3_def by (rule factor_step [OF P2 l1 d3(2)])+
  have r3: "fmul (convert (Fin q) U V) (toGrams V) = Fin (q * a * P3)"
  proof -
    have "fmul (convert (Fin q) U V) (toGrams V) = round64 (q * a / b * P2 * b)"
      unfolding r2 b(1) by (rule fmul.simps(1))
    also have "\<dots> = round64 (q * a * P2)" by (simp only: x3)
    also have "\<dots> = Fin (q * a * P3)" unfolding P3_def by (rule d3(1))
    finally show ?thesis .
  qed
  have x4: "q * a * P3 / a = q * P3" using a0 by simp
  have h3: "1 / 2 \<le> P3" "P3 \<le> 2" using P3 by simp_all
  from round64_step [OF refl B4 h3]
  obtain d4 where d4: "round64 (q * P3) = Fin (q * (P3 * (1 + d4)))" "\<bar>d4\<bar> \<le> 1 / 2 ^ 53" .
  define P4 where "P4 = P3 * (1 + d4)"
  have l2: "0 \<le> ?l * ?l * ?l" by simp
  have P4: "?l * ?l * ?l * ?l \<le> P4" "P4 \<le> ?h * ?h * ?h * ?h"
    unfolding P4_def by (rule factor_step [OF P3 l2 d4(2)])+
  have r4: "convert (convert (Fin q) U V) V U = Fin (q * P4)"
  proof -
    have "convert (convert (Fin q) U V) V U = fdiv (Fin (q * a * P3)) (Fin a)"
      unfolding convert_def [of _ V U] Let_def r3 a(1) by (rule refl)
    also have "\<dots> = round64 (q * a * P3 / a)" using a0 by simp
    also have "\<dots> = round64 (q * P3)" by (simp only: x4)
    also have "\<dots> = Fin (q * P4)" unfolding P4_def by (rule d4(1))
    finally show ?thesis .
  qed
  have "(1::rat) - 1 / 10 ^ 15 \<le> ?l * ?l * ?l * ?l"
    and "?h * ?h * ?h * ?h \<le> (1::rat) + 1 / 10 ^ 15" by simp_all
  with P4 have "1 - 1 / 10 ^ 15 \<le> P4" "P4 \<le> 1 + 1 / 10 ^ 15"
    by (blast intro: order_trans)+
  then have "\<bar>P4 - 1\<bar> \<le> 1 / 10 ^ 15" by (simp only: abs_le_iff) linarith
  then have "q * \<bar>P4 - 1\<bar> \<le> q * (1 / 10 ^ 15)" using q0 by (intro mult_left_mono) simp_all
  moreover have "\<bar>q * P4 - q\<bar> = q * \<bar>P4 - 1\<bar>"
  proof -
    have "q * P4 - q = q * (P4 - 1)" by (simp add: algebra_simps)
    then show ?thesis using q0 by (simp add: abs_mult)
  qed
  ultimately have "\<bar>q * P4 - q\<bar> \<le> q / 10 ^ 15" by simp
  with r4 that show thesis by blast
qed

lemma is_double_2_1023: "is_double (2 ^ 1023)"
  using round64_dyadic [of 1 1023] by (simp add: is_double_def)

lemma convert_overflow: "convert (Fin (2 ^ 1023)) Kg G = PosInf"
  using round64_overflow [of "2 ^ 1023 * 1000"] by (simp add: convert_def)

lemma convert_PosInf_G_Kg: "convert PosInf G Kg = PosInf"
  by (simp add: convert_def)

lemma is_double_min: "is_double (1 / 2 ^ 1074)"
  using round64_dyadic [of 1 "- 1074"] by (simp add: is_double_def)

lemma convert_underflow: "convert (Fin (1 / 2 ^ 1074)) G Kg = Fin 0"
proof -
  have "round64 (1 / 2 ^ 1074 / 1000) = Fin 0"
    using round64_exp [of "1 / 2 ^ 1074 / 1000" "- 1084"]
    by (simp add: quantum_def round_half_even_def Let_def)
  then show ?thesis
    using is_double_min by (simp add: convert_def is_double_def)
qed

text \<open>
  Claim C6 says that for every quantity \<open>q \<ge> 0\<close> the round trip through another unit
  recovers \<open>q\<close> within a relative tolerance of \<open>10^-9\<close>. At the ends of the range of
  doubles it does not: \<open>2^1023\<close> kilograms overflow to \<open>Infinity\<close> grams and stay
  infinite on the way back, and the smallest positive double, \<open>2^-1074\<close> grams, is 0
  kilograms and 0 grams on the way back.
\<close>

theorem round_trip_fails_at_the_extremes:
  "is_double (2 ^ 1023)
   \<and> convert (convert (Fin (2 ^ 1023)) Kg G) G Kg = PosInf
   \<and> \<not> within_rel (1 / 10 ^ 9) (convert (convert (Fin (2 ^ 1023)) Kg G) G Kg) (2 ^ 1023)
   \<and> is_double (1 / 2 ^ 1074)
   \<and> convert (convert (Fin (1 / 2 ^ 1074)) G Kg) Kg G = Fin 0
   \<and> \<not> within_rel (1 / 10 ^ 9) (convert (convert (Fin (1 / 2 ^ 1074)) G Kg) Kg G) (1 / 2 ^ 1074)"
  using is_double_2_1023 convert_overflow is_double_min convert_underflow
  by (simp add: convert_PosInf_G_Kg convert_zero)

text \<open>
  Claim C6, amended. For all units \<open>U\<close> and \<open>V\<close> and every quantity \<open>q\<close> that is 0 or
  lies between \<open>2 powi - 1000\<close> and \<open>2 powi 1000\<close>, converting \<open>q\<close> from \<open>U\<close> to \<open>V\<close>
  and the result back from \<open>V\<close> to \<open>U\<close> recovers \<open>q\<close> within a relative tolerance of
  \<open>10^-9\<close>.
\<close>

theorem round_trip_within_tolerance:
  assumes "q = 0 \<or> 2 powi (- 1000) \<le> q \<and> q \<le> 2 powi 1000"
  shows "within_rel (1 / 10 ^ 9) (convert (convert (Fin q) U V) V U) q"
  using assms
proof
  assume "q = 0"
  then show ?thesis by (simp add: convert_zero)
next
  assume r: "2 powi (- 1000) \<le> q \<and> q \<le> 2 powi 1000"
  then have q0: "0 < q" by (simp add: less_le_trans [of 0 "2 powi (- 1000)"])
  from r round_trip_rel [of q U V] obtain y where
    y: "convert (convert (Fin q) U V) V U = Fin y" "\<bar>y - q\<bar> \<le> q / 10 ^ 15" by blast
  have "q / 10 ^ 15 \<le> q / 10 ^ 9" using q0 by (intro divide_left_mono) simp_all
  with y(2) have "\<bar>y - q\<bar> \<le> q / 10 ^ 9" by linarith
  then show ?thesis using q0 by (simp add: y(1))
qed

theorem round_trip_within_tolerance_witness:
  "2 powi (- 1000) \<le> (25::rat) \<and> (25::rat) \<le> 2 powi 1000
   \<and> within_rel (1 / 10 ^ 9) (convert (convert (Fin 25) Lb G) G Lb) 25"
  using round_trip_within_tolerance [of 25 Lb G] by simp

section \<open>The pound value of the pricing calculator and the converter\<close>

lemma two_products_close:
  fixes B Pa Pb :: rat
  assumes "0 < B"
    and "(1 - 1 / 2 ^ 53) * (1 - 1 / 2 ^ 53) \<le> Pa" "Pa \<le> (1 + 1 / 2 ^ 53) * (1 + 1 / 2 ^ 53)"
    and "(1 - 1 / 2 ^ 53) * (1 - 1 / 2 ^ 53) \<le> Pb" "Pb \<le> (1 + 1 / 2 ^ 53) * (1 + 1 / 2 ^ 53)"
  shows "\<bar>B * Pa - B * Pb\<bar> \<le> 1 / 10 ^ 15 * \<bar>B * Pb\<bar>"
proof -
  let ?l2 = "((1::rat) - 1 / 2 ^ 53) * (1 - 1 / 2 ^ 53)"
  let ?h2 = "((1::rat) + 1 / 2 ^ 53) * (1 + 1 / 2 ^ 53)"
  have n: "?h2 - ?l2 \<le> ?l2 / 10 ^ 15" "0 < ?l2" by simp_all
  have Pb0: "0 < Pb" using assms(4) n(2) by linarith
  have "\<bar>Pa - Pb\<bar> \<le> ?h2 - ?l2" using assms(2-5) by (simp only: abs_le_iff) linarith
  also have "\<dots> \<le> ?l2 / 10 ^ 15" by (rule n(1))
  also have "\<dots> \<le> Pb / 10 ^ 15" using assms(4) by (intro divide_right_mono) simp_all
  finally have "\<bar>Pa - Pb\<bar> \<le> Pb / 10 ^ 15" .
  then have "B * \<bar>Pa - Pb\<bar> \<le> B * (Pb / 10 ^ 15)"
    using assms(1) by (intro mult_left_mono) simp_all
  moreover have "\<bar>B * Pa - B * Pb\<bar> = B * \<bar>Pa - Pb\<bar>"
  proof -
    have "B * Pa - B * Pb = B * (Pa - Pb)" by (simp add: algebra_simps)
    then show ?thesis using assms(1) by (simp add: abs_mult)
  qed
  moreover have "\<bar>B * Pb\<bar> = B * Pb" using assms(1) Pb0 by (simp add: abs_mult)
  ultimately show ?thesis by simp
qed

lemma factor_relation:
  "\<exists>a f P0. toGrams (as_weight_unit u) = Fin a \<and> 1 \<le> a \<and> a \<le> 1000
     \<and> conversionFactors u = Fin f
     \<and> f = a / (3989837426129371 / 8796093022208) * P0
     \<and> 1 - 1 / 2 ^ 53 \<le> P0 \<and> P0 \<le> 1 + 1 / 2 ^ 53"
proof (cases u)
  case Price_g
  show ?thesis
    by (rule exI [of _ 1], rule exI [of _ "5083517807222557 / 2305843009213693952"],
        rule exI [of _ "5083517807222557 / 2305843009213693952 * (3989837426129371 / 8796093022208)"])
       (simp add: Price_g as_weight_unit_def conversionFactors_g)
next
  case Price_oz
  show ?thesis
    by (rule exI [of _ "3989837426129371 / 140737488355328"], rule exI [of _ "1 / 16"],
        rule exI [of _ 1])
       (simp add: Price_oz as_weight_unit_def conversionFactors_oz toGrams_Oz)
next
  case Price_lb
  show ?thesis
    by (rule exI [of _ "3989837426129371 / 8796093022208"], rule exI [of _ 1], rule exI [of _ 1])
       (simp add: Price_lb as_weight_unit_def toGrams_Lb)
qed

lemma pounds_close_to_convert:
  assumes "2 powi (- 1000) \<le> q" "q \<le> 2 powi 1000"
  obtains p where "convert (Fin q) (as_weight_unit u) Lb = Fin p"
    "within_rel (1 / 10 ^ 15) (pounds_of (Fin q) u) p"
proof -
  define c :: rat where "c = 3989837426129371 / 8796093022208"
  have c: "toGrams Lb = Fin c" "1 \<le> c" "c \<le> 1000" by (simp_all add: c_def toGrams_Lb)
  from factor_relation [of u] obtain a f P0 where
    a: "toGrams (as_weight_unit u) = Fin a" "1 \<le> a" "a \<le> 1000"
    and f: "conversionFactors u = Fin f" "f = a / c * P0"
    and P0: "1 - 1 / 2 ^ 53 \<le> P0" "P0 \<le> 1 + 1 / 2 ^ 53"
    unfolding c_def by blast
  define B where "B = q * a / c"
  from convert_form [OF assms a c] obtain Pb where
    Pb: "convert (Fin q) (as_weight_unit u) Lb = Fin (B * Pb)"
      "(1 - 1 / 2 ^ 53) * (1 - 1 / 2 ^ 53) \<le> Pb" "Pb \<le> (1 + 1 / 2 ^ 53) * (1 + 1 / 2 ^ 53)"
    unfolding B_def by blast
  have q0: "0 < q" using assms(1) by (simp add: less_le_trans [of 0 "2 powi (- 1000)"])
  have a0: "0 < a" using a(2) by simp
  have c0: "0 < c" using c(2) by simp
  have B0: "0 < B" unfolding B_def using q0 a0 c0 by simp
  have B: "2 powi (- 1010) \<le> B" "B \<le> 2 powi 1010"
  proof -
    have "2 powi (- 1000) * 1 / 1000 \<le> q * a / c"
      using assms(1) a(2) c(3) c0 q0 by (intro frac_le mult_mono) simp_all
    then show "2 powi (- 1010) \<le> B" by (simp add: B_def)
    have "0 \<le> a" using a0 by simp
    then have "q * a / c \<le> 2 powi 1000 * 1000 / 1"
      using assms(2) a(3) c(2) q0 by (intro frac_le mult_mono) simp_all
    then show "B \<le> 2 powi 1010" by (simp add: B_def)
  qed
  have x: "q * f = B * P0" by (simp add: f(2) B_def)
  have hP: "1 / 2 \<le> P0" "P0 \<le> 2" using P0 by simp_all
  from round64_step [OF x B hP]
  obtain d where d: "round64 (q * f) = Fin (B * (P0 * (1 + d)))" "\<bar>d\<bar> \<le> 1 / 2 ^ 53" .
  define Pa where "Pa = P0 * (1 + d)"
  have l0: "(0::rat) \<le> 1 - 1 / 2 ^ 53" by simp
  have Pa: "(1 - 1 / 2 ^ 53) * (1 - 1 / 2 ^ 53) \<le> Pa" "Pa \<le> (1 + 1 / 2 ^ 53) * (1 + 1 / 2 ^ 53)"
    unfolding Pa_def by (rule factor_step [OF P0 l0 d(2)])+
  have pa: "pounds_of (Fin q) u = Fin (B * Pa)"
    unfolding pounds_of_def f(1) Pa_def using d(1) by simp
  from two_products_close [OF B0 Pa Pb(2,3)]
  have "within_rel (1 / 10 ^ 15) (pounds_of (Fin q) u) (B * Pb)"
    unfolding pa by (simp only: within_rel_Fin)
  with Pb(1) show thesis by (rule that)
qed

lemma pounds_of_zero: "pounds_of (Fin 0) u = Fin 0"
  by (cases u) (simp_all add: pounds_of_def conversionFactors_g conversionFactors_oz)

lemma pounds_3_g: "pounds_of (Fin 3) Price_g = Fin (1906319177708459 / 288230376151711744)"
  unfolding pounds_of_def conversionFactors_g
  using round64_tie [of "15250553421667671 / 2305843009213693952" "- 8" 7625276710833835 7625276710833836]
  by simp

lemma convert_3_g_lb: "convert (Fin 3) G Lb = Fin (7625276710833835 / 1152921504606846976)"
  unfolding convert_def Let_def toGrams_Lb
  using round64_eval [of "26388279066624 / 3989837426129371" "- 8" 7625276710833835]
  by simp

text \<open>
  Claim C3 says that the pound value computed inside the pricing calculator, the quantity
  times the calculator's own factor, equals the converter's result for the same quantity
  and unit to the pound. The calculator multiplies by a rounded reciprocal where the
  converter multiplies and then divides: for 3 grams the two results differ in the last
  bit.
\<close>

theorem pounds_of_3_g_differs_from_convert:
  "is_double 3 \<and> as_weight_unit Price_g = G
   \<and> pounds_of (Fin 3) Price_g = Fin (1906319177708459 / 288230376151711744)
   \<and> convert (Fin 3) G Lb = Fin (7625276710833835 / 1152921504606846976)
   \<and> pounds_of (Fin 3) Price_g \<noteq> convert (Fin 3) (as_weight_unit Price_g) Lb"
  by (simp add: is_double_3 as_weight_unit_def pounds_3_g convert_3_g_lb)

text \<open>
  Claim C3, amended. For every unit that the pricing calculator accepts, its factor is
  exactly the quotient, in doubles, of the converter's factor of that unit by the
  converter's factor of the pound; and for every quantity that is 0 or lies between
  \<open>2 powi - 1000\<close> and \<open>2 powi 1000\<close>, the pound value computed inside the calculator
  equals the converter's result within a relative error of \<open>10^-15\<close>.
\<close>

theorem pound_tables_agree_up_to_rounding:
  "fdiv (toGrams (as_weight_unit u)) (toGrams Lb) = conversionFactors u
   \<and> (q = 0 \<or> 2 powi (- 1000) \<le> q \<and> q \<le> 2 powi 1000 \<longrightarrow>
        (\<exists>p. convert (Fin q) (as_weight_unit u) Lb = Fin p
             \<and> within_rel (1 / 10 ^ 15) (pounds_of (Fin q) u) p))"
proof (intro conjI impI)
  show "fdiv (toGrams (as_weight_unit u)) (toGrams Lb) = conversionFactors u"
  proof (cases u)
    case Price_g
    then show ?thesis by (simp add: as_weight_unit_def conversionFactors_def toGrams_def)
  next
    case Price_oz
    then show ?thesis
      using round64_eval [of "1 / 16" "- 4" "2 ^ 52"]
      by (simp add: as_weight_unit_def conversionFactors_oz toGrams_Oz toGrams_Lb)
  next
    case Price_lb
    then show ?thesis by (simp add: as_weight_unit_def toGrams_Lb)
  qed
next
  assume "q = 0 \<or> 2 powi (- 1000) \<le> q \<and> q \<le> 2 powi 1000"
  then show "\<exists>p. convert (Fin q) (as_weight_unit u) Lb = Fin p
             \<and> within_rel (1 / 10 ^ 15) (pounds_of (Fin q) u) p"
  proof
    assume "q = 0"
    then show ?thesis by (simp add: convert_zero pounds_of_zero)
  next
    assume "2 powi (- 1000) \<le> q \<and> q \<le> 2 powi 1000"
    then show ?thesis using pounds_close_to_convert [of q u] by blast
  qed
qed

theorem pound_tables_agree_up_to_rounding_witness:
  "2 powi (- 1000) \<le> (3::rat) \<and> (3::rat) \<le> 2 powi 1000
   \<and> within_rel (1 / 10 ^ 15) (pounds_of (Fin 3) Price_g) (7625276710833835 / 1152921504606846976)"
proof -
  have r: "(3::rat) = 0 \<or> 2 powi (- 1000) \<le> (3::rat) \<and> (3::rat) \<le> 2 powi 1000" by simp
  from pound_tables_agree_up_to_rounding [of Price_g 3, THEN conjunct2, rule_format, OF r]
  obtain p where p: "convert (Fin 3) (as_weight_unit Price_g) Lb = Fin p"
    "within_rel (1 / 10 ^ 15) (pounds_of (Fin 3) Price_g) p" by blast
  from p(1) have "p = 7625276710833835 / 1152921504606846976"
    by (simp add: as_weight_unit_def convert_3_g_lb)
  with p(2) show ?thesis by simp
qed

section \<open>The decomposition into sub-units\<close>

lemma math_floor_fdiv_exact:
  assumes "is_double q" "0 \<le> q" "q < 2 ^ 52" "- 1 \<le> k" "k \<le> 2"
  shows "math_floor (fdiv (Fin q) (Fin (7 * 2 powi k))) = Fin (of_int \<lfloor>q / (7 * 2 powi k)\<rfloor>)"
proof -
  from floor_quotient_exact [OF assms] obtain y where
    "round64 (q / (7 * 2 powi k)) = Fin y" "\<lfloor>y\<rfloor> = \<lfloor>q / (7 * 2 powi k)\<rfloor>" by blast
  then show ?thesis by simp
qed

lemma fmod_28:
  assumes "0 \<le> q"
  shows "fmod (Fin q) (Fin 28) = Fin (q - 28 * of_int \<lfloor>q / 28\<rfloor>)"
  using assms by (simp add: trunc_def)

lemma remainder_range:
  fixes q :: rat
  shows "0 \<le> q - 28 * of_int \<lfloor>q / 28\<rfloor>" "q - 28 * of_int \<lfloor>q / 28\<rfloor> < 28"
proof -
  have "of_int \<lfloor>q / 28\<rfloor> \<le> q / 28" "q / 28 < of_int \<lfloor>q / 28\<rfloor> + 1" by linarith+
  then show "0 \<le> q - 28 * of_int \<lfloor>q / 28\<rfloor>" "q - 28 * of_int \<lfloor>q / 28\<rfloor> < 28"
    by (simp_all add: field_simps)
qed

lemma hundredths_remainder:
  fixes q :: rat
  shows "hundredths (q - 28 * of_int \<lfloor>q / 28\<rfloor>) \<le> 2800"
proof -
  define m where "m = q - 28 * of_int \<lfloor>q / 28\<rfloor>"
  have m: "0 \<le> m" "m < 28" using remainder_range [of q] by (simp_all add: m_def)
  then have "\<bar>m\<bar> * 100 + 1 / 2 < of_int 2801" by simp
  then have "\<lfloor>\<bar>m\<bar> * 100 + 1 / 2\<rfloor> < 2801" by (simp only: floor_less_iff)
  then have "nat \<lfloor>\<bar>m\<bar> * 100 + 1 / 2\<rfloor> \<le> 2800" by linarith
  then show ?thesis unfolding m_def [symmetric] hundredths_def .
qed

lemma decompose_exact:
  assumes "is_double q" "0 \<le> q" "q < 2 ^ 52"
  shows "decompose (Fin q) =
      \<lparr>eighths = Fin (of_int \<lfloor>q / (7 / 2)\<rfloor>),
       quarters = Fin (of_int \<lfloor>q / 7\<rfloor>),
       halfOunces = Fin (of_int \<lfloor>q / 14\<rfloor>),
       ounces = Fin (of_int \<lfloor>q / 28\<rfloor>),
       remaining = toFixed2 (Fin (q - 28 * of_int \<lfloor>q / 28\<rfloor>))\<rparr>"
proof -
  have 1: "math_floor (fdiv (Fin q) (Fin (7 / 2))) = Fin (of_int \<lfloor>q / (7 / 2)\<rfloor>)"
    using math_floor_fdiv_exact [OF assms, of "- 1"] by simp
  have 2: "math_floor (fdiv (Fin q) (Fin 7)) = Fin (of_int \<lfloor>q / 7\<rfloor>)"
    using math_floor_fdiv_exact [OF assms, of 0] by simp
  have 3: "math_floor (fdiv (Fin q) (Fin 14)) = Fin (of_int \<lfloor>q / 14\<rfloor>)"
    using math_floor_fdiv_exact [OF assms, of 1] by simp
  have 4: "math_floor (fdiv (Fin q) (Fin 28)) = Fin (of_int \<lfloor>q / 28\<rfloor>)"
    using math_floor_fdiv_exact [OF assms, of 2] by simp
  show ?thesis
    unfolding decompose_def 1 2 3 4 fmod_28 [OF assms(2)] by (rule refl)
qed

lemma lit_27999: "lit (27999 / 1000) = Fin (7881017872921657 / 281474976710656)"
  unfolding lit_def using round64_eval [of "27999 / 1000" 4 7881017872921657] by simp

lemma decompose_27999:
  "decompose (Fin (7881017872921657 / 281474976710656)) =
     \<lparr>eighths = Fin 7, quarters = Fin 3, halfOunces = Fin 1, ounces = Fin 0,
      remaining = Text ''28.00''\<rparr>"
  unfolding decompose_def
  using round64_eval [of "7881017872921657 / 985162418487296" 2 9006877569053322]
    round64_eval [of "7881017872921657 / 1970324836974592" 1 9006877569053322]
    round64_eval [of "7881017872921657 / 3940649673949184" 0 9006877569053322]
    round64_eval [of "7881017872921657 / 7881299347898368" "- 1" 9006877569053322]
  by (simp add: eval_simps)

lemma is_double_2e16: "is_double 20000000000000008"
  using round64_dyadic [of 2500000000000001 3] by (simp add: is_double_def)

lemma eighths_2e16: "eighths (decompose (Fin 20000000000000008)) = Fin 5714285714285717"
  unfolding decompose_def
  using round64_eval [of "40000000000000016 / 7" 52 5714285714285717]
  by simp

text \<open>
  Claim C5 says that the remainder of the decomposition lies in \<open>[0, 28)\<close> and that each
  count is the floor of the quantity divided by the size of the sub-unit. The remainder is
  reported with two decimals, and 27.999 grams are reported as 0 ounces and a remainder of
  28.00. (Beyond \<open>2^52\<close> grams the counts are off as well, since the quotient is rounded
  before the floor is taken: \<open>20000000000000008 / 3.5\<close> is \<open>5714285714285716.57\<close> but the
  count of eighths is \<open>5714285714285717\<close>.)
\<close>

theorem remainder_is_reported_as_28:
  "lit (27999 / 1000) = Fin (7881017872921657 / 281474976710656)
   \<and> weightConversionTool
        \<lparr>fromWeight = lit (27999 / 1000), fromUnit = G, toUnit = G, bulkPricing = False\<rparr>
     = Inr \<lparr>original = (Fin (7881017872921657 / 281474976710656), G),
             converted = (Text ''28.00'', G), bulkDiscount = ''None'',
             breakdown = \<lparr>eighths = Fin 7, quarters = Fin 3, halfOunces = Fin 1, ounces = Fin 0,
                          remaining = Text ''28.00''\<rparr>\<rparr>
   \<and> is_double 20000000000000008
   \<and> eighths (decompose (Fin 20000000000000008)) = Fin 5714285714285717
   \<and> \<lfloor>20000000000000008 / (7 / 2) :: rat\<rfloor> = 5714285714285716"
proof (intro conjI)
  show l: "lit (27999 / 1000) = Fin (7881017872921657 / 281474976710656)" by (rule lit_27999)
  have "is_double (7881017872921657 / 281474976710656)"
    using lit_27999 unfolding lit_def by (rule round64_is_double)
  then have c: "convert (Fin (7881017872921657 / 281474976710656)) G G
      = Fin (7881017872921657 / 281474976710656)" by (rule convert_G_G)
  show "weightConversionTool
        \<lparr>fromWeight = lit (27999 / 1000), fromUnit = G, toUnit = G, bulkPricing = False\<rparr>
     = Inr \<lparr>original = (Fin (7881017872921657 / 281474976710656), G),
             converted = (Text ''28.00'', G), bulkDiscount = ''None'',
             breakdown = \<lparr>eighths = Fin 7, quarters = Fin 3, halfOunces = Fin 1, ounces = Fin 0,
                          remaining = Text ''28.00''\<rparr>\<rparr>"
    unfolding weightConversionTool_def Let_def l
    by (simp add: c decompose_27999 bulkDiscount_of_def eval_simps)
  show "is_double 20000000000000008" by (rule is_double_2e16)
  show "eighths (decompose (Fin 20000000000000008)) = Fin 5714285714285717"
    by (rule eighths_2e16)
  show "\<lfloor>20000000000000008 / (7 / 2) :: rat\<rfloor> = 5714285714285716" by simp
qed

text \<open>
  Claim C5, amended. For every quantity in grams that is a double with \<open>0 \<le> q < 2^52\<close>,
  each sub-unit count (eighths at 3.5 g, quarters at 7 g, half-ounces at 14 g, ounces at
  28 g) is the floor of the original quantity divided by the size of that sub-unit, each
  computed on its own from the original quantity, and all counts are at least 0; the
  remainder \<open>q mod 28\<close> is computed exactly and lies in \<open>[0, 28)\<close>, and what is reported is
  that remainder rounded to two decimals, a value from 0.00 to 28.00; and
  \<open>decompose (700)\<close> gives 25 ounces, 50 half-ounces, 100 quarters, 200 eighths and the
  remainder 0.00.
\<close>

theorem decompose_counts_and_remainder:
  assumes "is_double q" "0 \<le> q" "q < 2 ^ 52"
  shows "decompose (Fin q) =
      \<lparr>eighths = Fin (of_int \<lfloor>q / (7 / 2)\<rfloor>),
       quarters = Fin (of_int \<lfloor>q / 7\<rfloor>),
       halfOunces = Fin (of_int \<lfloor>q / 14\<rfloor>),
       ounces = Fin (of_int \<lfloor>q / 28\<rfloor>),
       remaining = toFixed2 (Fin (q - 28 * of_int \<lfloor>q / 28\<rfloor>))\<rparr>
    \<and> 0 \<le> \<lfloor>q / (7 / 2)\<rfloor> \<and> 0 \<le> \<lfloor>q / 7\<rfloor> \<and> 0 \<le> \<lfloor>q / 14\<rfloor> \<and> 0 \<le> \<lfloor>q / 28\<rfloor>
    \<and> 0 \<le> q - 28 * of_int \<lfloor>q / 28\<rfloor> \<and> q - 28 * of_int \<lfloor>q / 28\<rfloor> < 28
    \<and> hundredths (q - 28 * of_int \<lfloor>q / 28\<rfloor>) \<le> 2800
    \<and> decompose (Fin 700) =
      \<lparr>eighths = Fin 200, quarters = Fin 100, halfOunces = Fin 50, ounces = Fin 25,
       remaining = Text ''0.00''\<rparr>"
proof (intro conjI)
  show "decompose (Fin q) =
      \<lparr>eighths = Fin (of_int \<lfloor>q / (7 / 2)\<rfloor>),
       quarters = Fin (of_int \<lfloor>q / 7\<rfloor>),
       halfOunces = Fin (of_int \<lfloor>q / 14\<rfloor>),
       ounces = Fin (of_int \<lfloor>q / 28\<rfloor>),
       remaining = toFixed2 (Fin (q - 28 * of_int \<lfloor>q / 28\<rfloor>))\<rparr>"
    using assms by (rule decompose_exact)
  show "0 \<le> \<lfloor>q / (7 / 2)\<rfloor>" "0 \<le> \<lfloor>q / 7\<rfloor>" "0 \<le> \<lfloor>q / 14\<rfloor>" "0 \<le> \<lfloor>q / 28\<rfloor>"
    using assms(2) by simp_all
  show "0 \<le> q - 28 * of_int \<lfloor>q / 28\<rfloor>" "q - 28 * of_int \<lfloor>q / 28\<rfloor> < 28"
    by (rule remainder_range)+
  show "hundredths (q - 28 * of_int \<lfloor>q / 28\<rfloor>) \<le> 2800" by (rule hundredths_remainder)
  have "is_double 700" "(0::rat) \<le> 700" "(700::rat) < 2 ^ 52" by (simp_all add: is_double_def)
  from decompose_exact [OF this]
  show "decompose (Fin 700) =
      \<lparr>eighths = Fin 200, quarters = Fin 100, halfOunces = Fin 50, ounces = Fin 25,
       remaining = Text ''0.00''\<rparr>"
    by (simp add: eval_simps)
qed

theorem decompose_counts_and_remainder_witness:
  "is_double 60 \<and> (0::rat) \<le> 60 \<and> (60::rat) < 2 ^ 52
   \<and> decompose (Fin 60) =
      \<lparr>eighths = Fin 17, quarters = Fin 8, halfOunces = Fin 4, ounces = Fin 2,
       remaining = Text ''4.00''\<rparr>"
proof -
  have h: "is_double 60" "(0::rat) \<le> 60" "(60::rat) < 2 ^ 52" by (simp_all add: is_double_def)
  from decompose_counts_and_remainder [OF h, THEN conjunct1]
  have "decompose (Fin 60) =
      \<lparr>eighths = Fin 17, quarters = Fin 8, halfOunces = Fin 4, ounces = Fin 2,
       remaining = Text ''4.00''\<rparr>"
    by (simp add: eval_simps)
  with h show ?thesis by simp
qed

end
